theory Spec2Isabelle
  imports Complex_Main "HOL-Library.Monad_Syntax" "HOL-Library.Word"
begin

section \<open>Memory, integers and loops\<close>

text \<open>
  A \<^verbatim>\<open>double\<close> is modelled by a real number: every arithmetic expression of the source is
  kept operator by operator, in the source's order, but rounding, overflow to infinity and
  NaN are not part of the model.

  A heap array of \<open>n\<close> doubles is a partial map from the linear index to the stored value,
  defined exactly on \<open>0 ..< n\<close>.  A read or a write outside the array is undefined behaviour
  in C++; in the model it yields \<open>None\<close>, and \<open>None\<close> propagates to the result of the
  whole program.  So a theorem stating that a function returns \<open>Some\<close> also states that
  every access it made was inside its arrays.

  An \<^verbatim>\<open>int\<close> has 32 bits.  The sizes and indices of the arrays are computed in unbounded
  integers: an array whose size \<^verbatim>\<open>nx * ny\<close> does not fit an \<^verbatim>\<open>int\<close> is not allocated, and
  every index the loops compute is an index of a cell or a loop bound, below that size.
  The one product that can exceed an \<^verbatim>\<open>int\<close> on an allocated grid is \<^verbatim>\<open>i * i\<close> of the
  initialisation, which is computed by \<open>int_mul\<close>.
\<close>

type_synonym buffer = "int \<rightharpoonup> real"

definition new_array :: "int \<Rightarrow> buffer option" where
  \<comment> \<open>\<^verbatim>\<open>new double[n]\<close>, \<^verbatim>\<open>vector<double>(n)\<close>, with \<open>n\<close> the \<^verbatim>\<open>int\<close> product \<^verbatim>\<open>nx * ny\<close>:
      a negative size throws, a product beyond \<^verbatim>\<open>INT_MAX\<close> has overflowed; neither gives
      the program a result.  The cells start at 0 (the initialisation loop overwrites all
      of them before any is read).\<close>
  "new_array n =
     (if 0 \<le> n \<and> n \<le> 2147483647
      then Some (\<lambda>k. if 0 \<le> k \<and> k < n then Some 0 else None) else None)"

definition store :: "buffer \<Rightarrow> int \<Rightarrow> real \<Rightarrow> buffer option" where
  \<comment> \<open>\<^verbatim>\<open>b[k] = v\<close>\<close>
  "store b k v = (if k \<in> dom b then Some (b(k \<mapsto> v)) else None)"

definition int_mul :: "int \<Rightarrow> int \<Rightarrow> int" where
  \<comment> \<open>the product of two \<^verbatim>\<open>int\<close>s as a 32-bit two's complement machine computes it: it
      wraps around (in C++ the overflow of a signed product is undefined behaviour)\<close>
  "int_mul a b = sint (word_of_int a * word_of_int b :: 32 word)"

function for_loop :: "int \<Rightarrow> int \<Rightarrow> (int \<Rightarrow> 's \<Rightarrow> 's option) \<Rightarrow> 's \<Rightarrow> 's option" where
  \<comment> \<open>\<^verbatim>\<open>for (int i = lo; i < n; ++i) body\<close>, on the state the body updates\<close>
  "for_loop i n body s =
     (if i < n then Option.bind (body i s) (for_loop (i + 1) n body) else Some s)"
  by pat_completeness auto
termination
  by (relation "measure (\<lambda>(i, n, body, s). nat (n - i))") auto

declare for_loop.simps [simp del]

text \<open>
  What a run leaves behind: the two fields, the diagnostic records written to
  \<^verbatim>\<open>data_out\<close> (each \<open>(t, i, j, |old|, |new|)\<close>), and the step numbers printed on the
  console.
\<close>

type_synonym diag_record = "int \<times> int \<times> int \<times> real \<times> real"

record 'k sim =
  sim_vi :: "'k \<rightharpoonup> real"
  sim_vr :: "'k \<rightharpoonup> real"
  fout :: "diag_record list"
  cout :: "int list"

section \<open>The cache-optimized program\<close>

definition pi_c :: real where
  "pi_c = 4 * arctan 1"

definition quarter :: real where
  "quarter = 0.25"

definition half :: real where
  "half = 0.5"

definition init_optimized ::
  "int \<Rightarrow> int \<Rightarrow> buffer \<times> buffer \<Rightarrow> (buffer \<times> buffer) option" where
  "init_optimized nx ny =
     for_loop 0 nx (\<lambda>i.
       let i_sq = real_of_int (int_mul i i);
           i_factor = sin (pi_c / real_of_int nx * real_of_int i)
       in for_loop 0 ny (\<lambda>j (vi, vr). do {
            vi' \<leftarrow> store vi (i * ny + j) (i_sq * real_of_int j * i_factor);
            vr' \<leftarrow> store vr (i * ny + j) 0;
            Some (vi', vr')
          }))"

definition interior_update :: "buffer \<Rightarrow> int \<Rightarrow> int \<Rightarrow> buffer \<Rightarrow> buffer option" where
  "interior_update vi nx ny =
     for_loop 1 (nx - 1) (\<lambda>i.
       for_loop 1 (ny - 1) (\<lambda>j vr. do {
         a \<leftarrow> vi ((i + 1) * ny + j);
         b \<leftarrow> vi ((i - 1) * ny + j);
         c \<leftarrow> vi (i * ny + (j - 1));
         d \<leftarrow> vi (i * ny + (j + 1));
         store vr (i * ny + j) ((a + b + c + d) * quarter)
       }))"

definition boundary_rows :: "buffer \<Rightarrow> int \<Rightarrow> int \<Rightarrow> buffer \<Rightarrow> buffer option" where
  "boundary_rows vi nx ny =
     for_loop 1 (ny - 1) (\<lambda>j vr. do {
       a \<leftarrow> vi (1 * ny + j);
       c \<leftarrow> vi (0 * ny + (j - 1));
       d \<leftarrow> vi (0 * ny + (j + 1));
       vr \<leftarrow> store vr (0 * ny + j) ((a + 10.0 + c + d) * quarter);
       b \<leftarrow> vi ((nx - 2) * ny + j);
       c \<leftarrow> vi ((nx - 1) * ny + (j - 1));
       d \<leftarrow> vi ((nx - 1) * ny + (j + 1));
       store vr ((nx - 1) * ny + j) ((5.0 + b + c + d) * quarter)
     })"

definition boundary_columns :: "buffer \<Rightarrow> int \<Rightarrow> int \<Rightarrow> buffer \<Rightarrow> buffer option" where
  "boundary_columns vi nx ny =
     for_loop 1 (nx - 1) (\<lambda>i vr. do {
       a \<leftarrow> vi ((i + 1) * ny + 0);
       b \<leftarrow> vi ((i - 1) * ny + 0);
       d \<leftarrow> vi (i * ny + 1);
       vr \<leftarrow> store vr (i * ny + 0) ((a + b + 15.45 + d) * quarter);
       a \<leftarrow> vi ((i + 1) * ny + (ny - 1));
       b \<leftarrow> vi ((i - 1) * ny + (ny - 1));
       c \<leftarrow> vi (i * ny + (ny - 2));
       store vr (i * ny + (ny - 1)) ((a + b + c - 6.7) * quarter)
     })"

definition diagnostic_scan ::
  "buffer \<Rightarrow> buffer \<Rightarrow> int \<Rightarrow> int \<Rightarrow> int \<Rightarrow> diag_record list \<Rightarrow> diag_record list option" where
  "diagnostic_scan vi vr nx ny t =
     for_loop 0 nx (\<lambda>i.
       for_loop 0 ny (\<lambda>j out. do {
         r \<leftarrow> vr (i * ny + j);
         c \<leftarrow> vi (i * ny + j);
         Some (if \<bar>\<bar>r\<bar> - \<bar>c\<bar>\<bar> < 0.01 then out @ [(t, i, j, \<bar>c\<bar>, \<bar>r\<bar>)] else out)
       }))"

definition relax :: "buffer \<Rightarrow> int \<Rightarrow> int \<Rightarrow> buffer \<Rightarrow> buffer option" where
  "relax vr nx ny =
     for_loop 0 (nx * ny) (\<lambda>i vi. do {
       a \<leftarrow> vi i;
       b \<leftarrow> vr i;
       store vi i ((a + b) * half)
     })"

definition step_optimized :: "int \<Rightarrow> int \<Rightarrow> int \<Rightarrow> int sim \<Rightarrow> int sim option" where
  \<comment> \<open>the body of the time loop\<close>
  "step_optimized nx ny t s = do {
     let s = s\<lparr>cout := cout s @ [t]\<rparr>;
     vr1 \<leftarrow> interior_update (sim_vi s) nx ny (sim_vr s);
     vr2 \<leftarrow> boundary_rows (sim_vi s) nx ny vr1;
     vr3 \<leftarrow> boundary_columns (sim_vi s) nx ny vr2;
     out \<leftarrow> diagnostic_scan (sim_vi s) vr3 nx ny t (fout s);
     vi' \<leftarrow> relax vr3 nx ny (sim_vi s);
     Some (s\<lparr>sim_vi := vi', sim_vr := vr3, fout := out\<rparr>)
   }"

definition run_optimized :: "bool \<Rightarrow> int \<Rightarrow> int \<Rightarrow> int \<Rightarrow> (int \<times> int sim) option" where
  \<comment> \<open>\<^verbatim>\<open>main\<close> of \<^verbatim>\<open>cache_optimized.cpp\<close> on the arguments \<^verbatim>\<open>nx ny nt\<close>; \<open>opens\<close> tells whether
      \<^verbatim>\<open>data_out\<close> could be opened.  The result is the exit status and the final state.\<close>
  "run_optimized opens nx ny nt = do {
     vi0 \<leftarrow> new_array (nx * ny);
     vr0 \<leftarrow> new_array (nx * ny);
     (vi1, vr1) \<leftarrow> init_optimized nx ny (vi0, vr0);
     let s = \<lparr>sim_vi = vi1, sim_vr = vr1, fout = [], cout = []\<rparr>;
     if \<not> opens then Some (1, s)
     else do {
       s' \<leftarrow> for_loop 0 nt (step_optimized nx ny) s;
       Some (0, s')
     }
   }"

section \<open>The parallel program, \<^verbatim>\<open>std::thread\<close> fallback\<close>

text \<open>
  The build without OpenMP (with OpenMP the interior and relaxation loops are those of
  the cache-optimized program, distributed by the runtime).  The worker threads of one
  step write disjoint cells and read only cells that no thread writes; the model runs
  them one after the other in the order of their thread number.  \<open>hw\<close> is what
  \<^verbatim>\<open>std::thread::hardware_concurrency()\<close> returns.  Everything after the interior update
  of a step up to the relaxation is, line by line, the code of the cache-optimized
  program, and uses its definitions.
\<close>

definition stencil_update_block ::
  "buffer \<Rightarrow> buffer \<Rightarrow> int \<Rightarrow> int \<Rightarrow> int \<Rightarrow> int \<Rightarrow> buffer option" where
  "stencil_update_block vi vr nx ny i_begin i_end =
     for_loop (max 1 i_begin) (min (nx - 1) i_end) (\<lambda>i.
       for_loop 1 (ny - 1) (\<lambda>j vr. do {
         a \<leftarrow> vi ((i + 1) * ny + j);
         b \<leftarrow> vi ((i - 1) * ny + j);
         c \<leftarrow> vi (i * ny + (j - 1));
         d \<leftarrow> vi (i * ny + (j + 1));
         store vr (i * ny + j) ((a + b + c + d) * 0.25)
       })) vr"

definition init_parallel ::
  "int \<Rightarrow> int \<Rightarrow> buffer \<times> buffer \<Rightarrow> (buffer \<times> buffer) option" where
  "init_parallel nx ny =
     for_loop 0 nx (\<lambda>i.
       let i_sq = 1.0 * real_of_int i * real_of_int i;
           i_factor = sin (pi_c / real_of_int nx * real_of_int i)
       in for_loop 0 ny (\<lambda>j (vi, vr). do {
            vi' \<leftarrow> store vi (i * ny + j) (i_sq * real_of_int j * i_factor);
            vr' \<leftarrow> store vr (i * ny + j) 0.0;
            Some (vi', vr')
          }))"

definition chunk_of :: "int \<Rightarrow> int \<Rightarrow> int" where
  \<comment> \<open>\<^verbatim>\<open>int rows = nx - 2; int chunk = max(1, rows / num_threads);\<close>
      (\<^verbatim>\<open>/\<close> truncates and \<open>div\<close> floors; under \<open>max 1\<close> the two agree)\<close>
  "chunk_of nx num_threads = (let rows = nx - 2 in max 1 (rows div num_threads))"

definition block_begin :: "int \<Rightarrow> int \<Rightarrow> int \<Rightarrow> int" where
  "block_begin nx num_threads tid = 1 + tid * chunk_of nx num_threads"

definition block_end :: "int \<Rightarrow> int \<Rightarrow> int \<Rightarrow> int" where
  "block_end nx num_threads tid =
     (if tid = num_threads - 1 then nx - 1
      else min (nx - 1) (block_begin nx num_threads tid + chunk_of nx num_threads))"

definition interior_threads :: "int \<Rightarrow> buffer \<Rightarrow> int \<Rightarrow> int \<Rightarrow> buffer \<Rightarrow> buffer option" where
  "interior_threads hw vi nx ny =
     (let num_threads = max 1 hw
      in for_loop 0 num_threads (\<lambda>tid vr.
           stencil_update_block vi vr nx ny
             (block_begin nx num_threads tid) (block_end nx num_threads tid)))"

definition avg_block :: "buffer \<Rightarrow> int \<Rightarrow> int \<Rightarrow> buffer \<Rightarrow> buffer option" where
  "avg_block vr begin end =
     for_loop begin end (\<lambda>k vi. do {
       a \<leftarrow> vi k;
       b \<leftarrow> vr k;
       store vi k ((a + b) * half)
     })"

definition relax_threads :: "int \<Rightarrow> buffer \<Rightarrow> int \<Rightarrow> int \<Rightarrow> buffer \<Rightarrow> buffer option" where
  "relax_threads hw vr nx ny =
     (let num_threads2 = max 1 hw;
          total = nx * ny;
          block = max 1 (total div num_threads2)
      in for_loop 0 num_threads2 (\<lambda>tid vi.
           let begin = tid * block;
               end = (if tid = num_threads2 - 1 then total else min total (begin + block))
           in avg_block vr begin end vi))"

definition step_parallel :: "int \<Rightarrow> int \<Rightarrow> int \<Rightarrow> int \<Rightarrow> int sim \<Rightarrow> int sim option" where
  "step_parallel hw nx ny t s = do {
     let s = s\<lparr>cout := cout s @ [t]\<rparr>;
     vr1 \<leftarrow> interior_threads hw (sim_vi s) nx ny (sim_vr s);
     vr2 \<leftarrow> boundary_rows (sim_vi s) nx ny vr1;
     vr3 \<leftarrow> boundary_columns (sim_vi s) nx ny vr2;
     out \<leftarrow> diagnostic_scan (sim_vi s) vr3 nx ny t (fout s);
     vi' \<leftarrow> relax_threads hw vr3 nx ny (sim_vi s);
     Some (s\<lparr>sim_vi := vi', sim_vr := vr3, fout := out\<rparr>)
   }"

definition run_parallel :: "int \<Rightarrow> bool \<Rightarrow> int \<Rightarrow> int \<Rightarrow> int \<Rightarrow> (int \<times> int sim) option" where
  "run_parallel hw opens nx ny nt = do {
     vi0 \<leftarrow> new_array (nx * ny);
     vr0 \<leftarrow> new_array (nx * ny);
     (vi1, vr1) \<leftarrow> init_parallel nx ny (vi0, vr0);
     let s = \<lparr>sim_vi = vi1, sim_vr = vr1, fout = [], cout = []\<rparr>;
     if \<not> opens then Some (1, s)
     else do {
       s' \<leftarrow> for_loop 0 nt (step_parallel hw nx ny) s;
       Some (0, s')
     }
   }"

section \<open>The serial baseline\<close>

text \<open>
  The baseline keeps each field as an array of \<open>nx\<close> separately allocated rows of \<open>ny\<close>
  doubles; \<open>g (i, j)\<close> is \<^verbatim>\<open>g[i][j]\<close>.  It never tests whether \<^verbatim>\<open>data_out\<close> was opened:
  an insertion into a stream that failed to open writes nothing.
\<close>

type_synonym grid = "int \<times> int \<rightharpoonup> real"

definition new_grid :: "int \<Rightarrow> int \<Rightarrow> grid option" where
  \<comment> \<open>\<^verbatim>\<open>new double*[nx]\<close>, then \<^verbatim>\<open>new double[ny]\<close> for each of the \<open>nx\<close> rows\<close>
  "new_grid nx ny =
     (if 0 \<le> nx \<and> (nx = 0 \<or> 0 \<le> ny)
      then Some (\<lambda>(i, j). if 0 \<le> i \<and> i < nx \<and> 0 \<le> j \<and> j < ny then Some 0 else None)
      else None)"

definition store2 :: "grid \<Rightarrow> int \<Rightarrow> int \<Rightarrow> real \<Rightarrow> grid option" where
  \<comment> \<open>\<^verbatim>\<open>g[i][j] = v\<close>\<close>
  "store2 g i j v = (if (i, j) \<in> dom g then Some (g((i, j) \<mapsto> v)) else None)"

definition init_serial :: "int \<Rightarrow> int \<Rightarrow> grid \<times> grid \<Rightarrow> (grid \<times> grid) option" where
  "init_serial nx ny =
     for_loop 0 nx (\<lambda>i.
       for_loop 0 ny (\<lambda>j (vi, vr). do {
         vi' \<leftarrow> store2 vi i j
                  (real_of_int (int_mul i i) * real_of_int j
                     * sin (pi_c / real_of_int nx * real_of_int i));
         vr' \<leftarrow> store2 vr i j 0;
         Some (vi', vr')
       }))"

definition update_serial :: "grid \<Rightarrow> int \<Rightarrow> int \<Rightarrow> grid \<Rightarrow> grid option" where
  "update_serial vi nx ny =
     for_loop 0 nx (\<lambda>i.
       for_loop 0 ny (\<lambda>j vr.
         if i > 0 \<and> i < nx - 1 \<and> j > 0 \<and> j < ny - 1 then do {
           a \<leftarrow> vi (i + 1, j);
           b \<leftarrow> vi (i - 1, j);
           c \<leftarrow> vi (i, j - 1);
           d \<leftarrow> vi (i, j + 1);
           store2 vr i j ((a + b + c + d) / 4)
         } else if i = 0 \<and> i < nx - 1 \<and> j > 0 \<and> j < ny - 1 then do {
           a \<leftarrow> vi (i + 1, j);
           c \<leftarrow> vi (i, j - 1);
           d \<leftarrow> vi (i, j + 1);
           store2 vr i j ((a + 10 + c + d) / 4)
         } else if i > 0 \<and> i = nx - 1 \<and> j > 0 \<and> j < ny - 1 then do {
           b \<leftarrow> vi (i - 1, j);
           c \<leftarrow> vi (i, j - 1);
           d \<leftarrow> vi (i, j + 1);
           store2 vr i j ((5 + b + c + d) / 4)
         } else if i > 0 \<and> i < nx - 1 \<and> j = 0 \<and> j < ny - 1 then do {
           a \<leftarrow> vi (i + 1, j);
           b \<leftarrow> vi (i - 1, j);
           d \<leftarrow> vi (i, j + 1);
           store2 vr i j ((a + b + 15.45 + d) / 4)
         } else if i > 0 \<and> i < nx - 1 \<and> j > 0 \<and> j = ny - 1 then do {
           a \<leftarrow> vi (i + 1, j);
           b \<leftarrow> vi (i - 1, j);
           c \<leftarrow> vi (i, j - 1);
           store2 vr i j ((a + b + c - 6.7) / 4)
         } else Some vr))"

definition diagnostic_serial ::
  "bool \<Rightarrow> grid \<Rightarrow> grid \<Rightarrow> int \<Rightarrow> int \<Rightarrow> int \<Rightarrow> diag_record list \<Rightarrow> diag_record list option"
  where
  "diagnostic_serial opens vi vr nx ny t =
     for_loop 0 nx (\<lambda>i.
       for_loop 0 ny (\<lambda>j out. do {
         r \<leftarrow> vr (i, j);
         c \<leftarrow> vi (i, j);
         Some (if \<bar>\<bar>r\<bar> - \<bar>c\<bar>\<bar> < 0.01
               then (if opens then out @ [(t, i, j, \<bar>c\<bar>, \<bar>r\<bar>)] else out)
               else out)
       }))"

definition relax_serial :: "grid \<Rightarrow> int \<Rightarrow> int \<Rightarrow> grid \<Rightarrow> grid option" where
  "relax_serial vr nx ny =
     for_loop 0 nx (\<lambda>i.
       for_loop 0 ny (\<lambda>j vi. do {
         a \<leftarrow> vi (i, j);
         b \<leftarrow> vr (i, j);
         store2 vi i j (a / 2 + b / 2)
       }))"

definition step_serial ::
  "bool \<Rightarrow> int \<Rightarrow> int \<Rightarrow> int \<Rightarrow> (int \<times> int) sim \<Rightarrow> (int \<times> int) sim option" where
  "step_serial opens nx ny t s = do {
     let s = s\<lparr>cout := cout s @ [t]\<rparr>;
     vr1 \<leftarrow> update_serial (sim_vi s) nx ny (sim_vr s);
     out \<leftarrow> diagnostic_serial opens (sim_vi s) vr1 nx ny t (fout s);
     vi' \<leftarrow> relax_serial vr1 nx ny (sim_vi s);
     Some (s\<lparr>sim_vi := vi', sim_vr := vr1, fout := out\<rparr>)
   }"

definition run_serial :: "bool \<Rightarrow> int \<Rightarrow> int \<Rightarrow> int \<Rightarrow> (int \<times> (int \<times> int) sim) option" where
  \<comment> \<open>\<^verbatim>\<open>main\<close> has no \<^verbatim>\<open>return\<close>: the exit status is 0\<close>
  "run_serial opens nx ny nt = do {
     vi0 \<leftarrow> new_grid nx ny;
     vr0 \<leftarrow> new_grid nx ny;
     (vi1, vr1) \<leftarrow> init_serial nx ny (vi0, vr0);
     s' \<leftarrow> for_loop 0 nt (step_serial opens nx ny)
             \<lparr>sim_vi = vi1, sim_vr = vr1, fout = [], cout = []\<rparr>;
     Some (0, s')
   }"

section \<open>Well-formed arrays\<close>

text \<open>
  The arrays of a run keep their extent: \<open>allocated n b\<close> says that \<open>b\<close> is an array of
  \<open>n\<close> doubles, \<open>allocated2 nx ny g\<close> that \<open>g\<close> is an array of \<open>nx\<close> rows of \<open>ny\<close> doubles.
  The arrays and states after them are small concrete inputs.
\<close>

definition allocated :: "int \<Rightarrow> buffer \<Rightarrow> bool" where
  \<comment> \<open>\<open>b\<close> is an array of \<open>n\<close> doubles\<close>
  "allocated n b \<longleftrightarrow> dom b = {0..<n}"

definition allocated2 :: "int \<Rightarrow> int \<Rightarrow> grid \<Rightarrow> bool" where
  \<comment> \<open>\<open>g\<close> is an array of \<open>nx\<close> rows of \<open>ny\<close> doubles\<close>
  "allocated2 nx ny g \<longleftrightarrow> dom g = {0..<nx} \<times> {0..<ny}"

definition zeros :: "int \<Rightarrow> buffer" where
  "zeros n = (\<lambda>k. if 0 \<le> k \<and> k < n then Some 0 else None)"

definition ramp :: "int \<Rightarrow> buffer" where
  "ramp n = (\<lambda>k. if 0 \<le> k \<and> k < n then Some (real_of_int k) else None)"

definition zeros2 :: "int \<Rightarrow> int \<Rightarrow> grid" where
  "zeros2 nx ny = (\<lambda>(i, j). if 0 \<le> i \<and> i < nx \<and> 0 \<le> j \<and> j < ny then Some 0 else None)"

definition gramp :: grid where
  "gramp = (\<lambda>(i, j). if 0 \<le> i \<and> i < 3 \<and> 0 \<le> j \<and> j < 3 then Some (real_of_int (i * 3 + j)) else None)"

definition state0 :: "int sim" where
  "state0 = \<lparr>sim_vi = ramp 9, sim_vr = zeros 9, fout = [], cout = []\<rparr>"

definition gstate0 :: "(int \<times> int) sim" where
  "gstate0 = \<lparr>sim_vi = gramp, sim_vr = zeros2 3 3, fout = [], cout = []\<rparr>"

section \<open>What the loops compute\<close>

text \<open>
  Each loop nest of the programs is shown below to return, on well-formed arrays, a
  result given here in closed form: the value stored in a cell as a function of the
  cell and of the arrays read.  \<open>stencil_val\<close>, \<open>top_val\<close>, \<open>bottom_val\<close>, \<open>left_val\<close> and
  \<open>right_val\<close> are the right-hand sides of the interior and boundary assignments, at the
  cell with linear index \<open>a\<close>; \<open>next_field\<close> is \<open>next\<close> after the interior and boundary
  updates of one step, \<open>step_closed\<close> the state after one step, \<open>run_state\<close> the state
  after \<open>nt\<close> steps.
\<close>

definition stencil_val :: "buffer \<Rightarrow> int \<Rightarrow> int \<Rightarrow> real" where
  \<comment> \<open>the five-point average around the cell at linear index \<open>k\<close>\<close>
  "stencil_val vi ny k =
     (the (vi (k + ny)) + the (vi (k - ny)) + the (vi (k - 1)) + the (vi (k + 1))) * 0.25"

definition top_val :: "buffer \<Rightarrow> int \<Rightarrow> int \<Rightarrow> real" where
  "top_val vi ny a = (the (vi (a + ny)) + 10.0 + the (vi (a - 1)) + the (vi (a + 1))) * quarter"

definition bottom_val :: "buffer \<Rightarrow> int \<Rightarrow> int \<Rightarrow> real" where
  "bottom_val vi ny a = (5.0 + the (vi (a - ny)) + the (vi (a - 1)) + the (vi (a + 1))) * quarter"

definition left_val :: "buffer \<Rightarrow> int \<Rightarrow> int \<Rightarrow> real" where
  "left_val vi ny a = (the (vi (a + ny)) + the (vi (a - ny)) + 15.45 + the (vi (a + 1))) * quarter"

definition right_val :: "buffer \<Rightarrow> int \<Rightarrow> int \<Rightarrow> real" where
  "right_val vi ny a = (the (vi (a + ny)) + the (vi (a - ny)) + the (vi (a - 1)) - 6.7) * quarter"

definition row_val :: "buffer \<Rightarrow> int \<Rightarrow> int \<Rightarrow> real" where
  "row_val vi ny a = (if a < ny then top_val vi ny a else bottom_val vi ny a)"

definition col_val :: "buffer \<Rightarrow> int \<Rightarrow> int \<Rightarrow> real" where
  "col_val vi ny a = (if a mod ny = 0 then left_val vi ny a else right_val vi ny a)"

definition next_field :: "buffer \<Rightarrow> buffer \<Rightarrow> int \<Rightarrow> int \<Rightarrow> buffer" where
  "next_field vi vr nx ny =
     (\<lambda>a. if a \<in> (\<Union>i\<in>{1..<nx - 1}. {i * ny + 0, i * ny + (ny - 1)})
            then Some (col_val vi ny a)
          else if a \<in> (\<Union>j\<in>{1..<ny - 1}. {0 * ny + j, (nx - 1) * ny + j})
            then Some (row_val vi ny a)
          else if a \<in> (\<Union>i\<in>{1..<nx - 1}. \<Union>j\<in>{1..<ny - 1}. {i * ny + j})
            then Some (stencil_val vi ny a)
          else vr a)"

definition diag_records :: "buffer \<Rightarrow> buffer \<Rightarrow> int \<Rightarrow> int \<Rightarrow> int \<Rightarrow> diag_record list" where
  "diag_records vi vr nx ny t =
     [(t, i, j, \<bar>the (vi (i * ny + j))\<bar>, \<bar>the (vr (i * ny + j))\<bar>).
        i \<leftarrow> [0..nx - 1], j \<leftarrow> [0..ny - 1],
        \<bar>\<bar>the (vr (i * ny + j))\<bar> - \<bar>the (vi (i * ny + j))\<bar>\<bar> < 0.01]"

definition relaxed :: "buffer \<Rightarrow> buffer \<Rightarrow> int \<Rightarrow> real" where
  "relaxed vi vr a = (the (vi a) + the (vr a)) * half"

definition step_closed :: "int \<Rightarrow> int \<Rightarrow> int \<Rightarrow> int sim \<Rightarrow> int sim" where
  "step_closed nx ny t s =
     (let nxt = next_field (sim_vi s) (sim_vr s) nx ny
      in \<lparr>sim_vi = (\<lambda>a. if a \<in> {0..<nx * ny} then Some (relaxed (sim_vi s) nxt a)
                        else sim_vi s a),
          sim_vr = nxt,
          fout = fout s @ diag_records (sim_vi s) nxt nx ny t,
          cout = cout s @ [t]\<rparr>)"

definition init_val_optimized :: "int \<Rightarrow> int \<Rightarrow> int \<Rightarrow> real" where
  "init_val_optimized nx ny a =
     real_of_int (int_mul (a div ny) (a div ny)) * real_of_int (a mod ny)
       * sin (pi_c / real_of_int nx * real_of_int (a div ny))"

definition init_val_parallel :: "int \<Rightarrow> int \<Rightarrow> int \<Rightarrow> real" where
  "init_val_parallel nx ny a =
     1.0 * real_of_int (a div ny) * real_of_int (a div ny) * real_of_int (a mod ny)
       * sin (pi_c / real_of_int nx * real_of_int (a div ny))"

definition initial :: "(int \<Rightarrow> real) \<Rightarrow> int \<Rightarrow> int \<Rightarrow> int sim" where
  "initial f nx ny =
     \<lparr>sim_vi = (\<lambda>a. if 0 \<le> a \<and> a < nx * ny then Some (f a) else None),
      sim_vr = zeros (nx * ny), fout = [], cout = []\<rparr>"

definition run_state :: "(int \<Rightarrow> real) \<Rightarrow> int \<Rightarrow> int \<Rightarrow> int \<Rightarrow> int sim" where
  "run_state f nx ny nt = fold (step_closed nx ny) [0..nt - 1] (initial f nx ny)"

text \<open>
  The same for the baseline, whose cells are addressed by row and column.
  \<open>serial_written nx ny i j\<close> is the disjunction of the five conditions of its update
  loop, \<open>serial_val\<close> the value the matching branch assigns.
\<close>

definition serial_written :: "int \<Rightarrow> int \<Rightarrow> int \<Rightarrow> int \<Rightarrow> bool" where
  "serial_written nx ny i j \<longleftrightarrow>
     (i > 0 \<and> i < nx - 1 \<and> j > 0 \<and> j < ny - 1)
   \<or> (i = 0 \<and> i < nx - 1 \<and> j > 0 \<and> j < ny - 1)
   \<or> (i > 0 \<and> i = nx - 1 \<and> j > 0 \<and> j < ny - 1)
   \<or> (i > 0 \<and> i < nx - 1 \<and> j = 0 \<and> j < ny - 1)
   \<or> (i > 0 \<and> i < nx - 1 \<and> j > 0 \<and> j = ny - 1)"

definition serial_val :: "grid \<Rightarrow> int \<Rightarrow> int \<Rightarrow> int \<times> int \<Rightarrow> real" where
  "serial_val vi nx ny = (\<lambda>(i, j).
     if i > 0 \<and> i < nx - 1 \<and> j > 0 \<and> j < ny - 1
       then (the (vi (i + 1, j)) + the (vi (i - 1, j)) + the (vi (i, j - 1))
              + the (vi (i, j + 1))) / 4
     else if i = 0 \<and> i < nx - 1 \<and> j > 0 \<and> j < ny - 1
       then (the (vi (i + 1, j)) + 10 + the (vi (i, j - 1)) + the (vi (i, j + 1))) / 4
     else if i > 0 \<and> i = nx - 1 \<and> j > 0 \<and> j < ny - 1
       then (5 + the (vi (i - 1, j)) + the (vi (i, j - 1)) + the (vi (i, j + 1))) / 4
     else if i > 0 \<and> i < nx - 1 \<and> j = 0 \<and> j < ny - 1
       then (the (vi (i + 1, j)) + the (vi (i - 1, j)) + 15.45 + the (vi (i, j + 1))) / 4
     else (the (vi (i + 1, j)) + the (vi (i - 1, j)) + the (vi (i, j - 1)) - 6.7) / 4)"

definition next_grid :: "grid \<Rightarrow> grid \<Rightarrow> int \<Rightarrow> int \<Rightarrow> grid" where
  "next_grid vi vr nx ny =
     (\<lambda>p. if p \<in> (\<Union>i\<in>{0..<nx}. \<Union>j\<in>{0..<ny}. (if serial_written nx ny i j then {(i, j)} else {}))
          then Some (serial_val vi nx ny p) else vr p)"

definition diag_records2 :: "bool \<Rightarrow> grid \<Rightarrow> grid \<Rightarrow> int \<Rightarrow> int \<Rightarrow> int \<Rightarrow> diag_record list" where
  "diag_records2 opens vi vr nx ny t =
     [(t, i, j, \<bar>the (vi (i, j))\<bar>, \<bar>the (vr (i, j))\<bar>).
        i \<leftarrow> [0..nx - 1], j \<leftarrow> [0..ny - 1],
        \<bar>\<bar>the (vr (i, j))\<bar> - \<bar>the (vi (i, j))\<bar>\<bar> < 0.01 \<and> opens]"

definition relaxed2 :: "grid \<Rightarrow> grid \<Rightarrow> int \<times> int \<Rightarrow> real" where
  "relaxed2 vi vr p = the (vi p) / 2 + the (vr p) / 2"

definition step_closed2 :: "bool \<Rightarrow> int \<Rightarrow> int \<Rightarrow> int \<Rightarrow> (int \<times> int) sim \<Rightarrow> (int \<times> int) sim" where
  "step_closed2 opens nx ny t s =
     (let nxt = next_grid (sim_vi s) (sim_vr s) nx ny
      in \<lparr>sim_vi = (\<lambda>p. if p \<in> {0..<nx} \<times> {0..<ny} then Some (relaxed2 (sim_vi s) nxt p)
                        else sim_vi s p),
          sim_vr = nxt,
          fout = fout s @ diag_records2 opens (sim_vi s) nxt nx ny t,
          cout = cout s @ [t]\<rparr>)"

definition init_val_serial :: "int \<Rightarrow> int \<times> int \<Rightarrow> real" where
  "init_val_serial nx = (\<lambda>(i, j).
     real_of_int (int_mul i i) * real_of_int j * sin (pi_c / real_of_int nx * real_of_int i))"

definition initial2 :: "int \<Rightarrow> int \<Rightarrow> (int \<times> int) sim" where
  "initial2 nx ny =
     \<lparr>sim_vi = (\<lambda>p. if p \<in> {0..<nx} \<times> {0..<ny} then Some (init_val_serial nx p) else None),
      sim_vr = zeros2 nx ny, fout = [], cout = []\<rparr>"

definition run_state2 :: "bool \<Rightarrow> int \<Rightarrow> int \<Rightarrow> int \<Rightarrow> (int \<times> int) sim" where
  "run_state2 opens nx ny nt = fold (step_closed2 opens nx ny) [0..nt - 1] (initial2 nx ny)"

text \<open>
  The baseline's field with its rows laid end to end is the field of the array
  programs.
\<close>

definition flatten :: "int \<Rightarrow> int \<Rightarrow> grid \<Rightarrow> buffer" where
  "flatten nx ny g = (\<lambda>a. if 0 \<le> a \<and> a < nx * ny then g (a div ny, a mod ny) else None)"

definition flat_state :: "int \<Rightarrow> int \<Rightarrow> (int \<times> int) sim \<Rightarrow> int sim" where
  "flat_state nx ny s =
     \<lparr>sim_vi = flatten nx ny (sim_vi s), sim_vr = flatten nx ny (sim_vr s),
      fout = fout s, cout = cout s\<rparr>"

section \<open>The properties claimed\<close>

text \<open>
  The contract of the interior kernel on the rows \<open>lo \<le> i < hi\<close>, in the words of the
  specification: each cell \<open>(i, j)\<close> of those rows with \<open>1 \<le> j < ny - 1\<close> receives the
  average of its four neighbours in \<open>vi\<close>, and no other cell of \<open>vr\<close> changes.
\<close>

definition writes_interior :: "buffer \<Rightarrow> buffer \<Rightarrow> int \<Rightarrow> int \<Rightarrow> int \<Rightarrow> buffer \<Rightarrow> bool" where
  "writes_interior vi vr ny lo hi vr' \<longleftrightarrow>
     (\<forall>i j. lo \<le> i \<and> i < hi \<and> 1 \<le> j \<and> j < ny - 1 \<longrightarrow>
        vr' (i * ny + j) =
          Some ((the (vi ((i + 1) * ny + j)) + the (vi ((i - 1) * ny + j))
                 + the (vi (i * ny + (j - 1))) + the (vi (i * ny + (j + 1)))) * 0.25))
   \<and> (\<forall>k. (\<forall>i j. lo \<le> i \<and> i < hi \<and> 1 \<le> j \<and> j < ny - 1 \<longrightarrow> k \<noteq> i * ny + j) \<longrightarrow>
        vr' k = vr k)"

text \<open>
  The boundary policy in the words of the specification: the four edge lines of \<open>nxt\<close>,
  corners excluded, hold the averages of the neighbours in \<open>cur\<close>, with the constants
  \<open>10.0\<close>, \<open>5.0\<close>, \<open>15.45\<close> and \<open>- 6.7\<close> for the neighbour that is missing.
\<close>

definition boundary_policy :: "buffer \<Rightarrow> int \<Rightarrow> int \<Rightarrow> buffer \<Rightarrow> bool" where
  "boundary_policy cur nx ny nxt \<longleftrightarrow>
     (\<forall>j. 1 \<le> j \<and> j < ny - 1 \<longrightarrow>
        nxt (0 * ny + j) =
          Some ((the (cur (1 * ny + j)) + 10.0 + the (cur (0 * ny + (j - 1)))
                  + the (cur (0 * ny + (j + 1)))) * 0.25)
      \<and> nxt ((nx - 1) * ny + j) =
          Some ((5.0 + the (cur ((nx - 2) * ny + j)) + the (cur ((nx - 1) * ny + (j - 1)))
                  + the (cur ((nx - 1) * ny + (j + 1)))) * 0.25))
   \<and> (\<forall>i. 1 \<le> i \<and> i < nx - 1 \<longrightarrow>
        nxt (i * ny + 0) =
          Some ((the (cur ((i + 1) * ny + 0)) + the (cur ((i - 1) * ny + 0)) + 15.45
                  + the (cur (i * ny + 1))) * 0.25)
      \<and> nxt (i * ny + (ny - 1)) =
          Some ((the (cur ((i + 1) * ny + (ny - 1))) + the (cur ((i - 1) * ny + (ny - 1)))
                  + the (cur (i * ny + (ny - 2))) - 6.7) * 0.25))"

text \<open>
  The four corner cells: unchanged from one array to another, and holding zero.
\<close>

definition corners_kept :: "int \<Rightarrow> int \<Rightarrow> buffer \<Rightarrow> buffer \<Rightarrow> bool" where
  "corners_kept nx ny before after \<longleftrightarrow>
     after (0 * ny + 0) = before (0 * ny + 0)
   \<and> after (0 * ny + (ny - 1)) = before (0 * ny + (ny - 1))
   \<and> after ((nx - 1) * ny + 0) = before ((nx - 1) * ny + 0)
   \<and> after ((nx - 1) * ny + (ny - 1)) = before ((nx - 1) * ny + (ny - 1))"

definition corners_kept2 :: "int \<Rightarrow> int \<Rightarrow> grid \<Rightarrow> grid \<Rightarrow> bool" where
  "corners_kept2 nx ny before after \<longleftrightarrow>
     after (0, 0) = before (0, 0)
   \<and> after (0, ny - 1) = before (0, ny - 1)
   \<and> after (nx - 1, 0) = before (nx - 1, 0)
   \<and> after (nx - 1, ny - 1) = before (nx - 1, ny - 1)"

definition corners_zero :: "int \<Rightarrow> int \<Rightarrow> buffer \<Rightarrow> bool" where
  "corners_zero nx ny b \<longleftrightarrow>
     b (0 * ny + 0) = Some 0 \<and> b (0 * ny + (ny - 1)) = Some 0
   \<and> b ((nx - 1) * ny + 0) = Some 0 \<and> b ((nx - 1) * ny + (ny - 1)) = Some 0"

definition corners_zero2 :: "int \<Rightarrow> int \<Rightarrow> grid \<Rightarrow> bool" where
  "corners_zero2 nx ny g \<longleftrightarrow>
     g (0, 0) = Some 0 \<and> g (0, ny - 1) = Some 0
   \<and> g (nx - 1, 0) = Some 0 \<and> g (nx - 1, ny - 1) = Some 0"

text \<open>
  \<open>recorded\<close>: the diagnostic record of cell \<open>(i, j)\<close> at step \<open>t\<close> is among the records
  \<open>new\<close>.  \<open>relaxes\<close>: cell \<open>c\<close> of \<open>new\<close> is the mean of that cell in \<open>old\<close> and \<open>nxt\<close>, and
  lies between the two.
\<close>

definition recorded :: "buffer \<Rightarrow> buffer \<Rightarrow> int \<Rightarrow> int \<Rightarrow> int \<Rightarrow> int \<Rightarrow> int \<Rightarrow> diag_record list \<Rightarrow> bool"
  where
  "recorded vi vr nx ny t i j new \<longleftrightarrow>
     (t, i, j, \<bar>the (vi (i * ny + j))\<bar>, \<bar>the (vr (i * ny + j))\<bar>) \<in> set new"

definition relaxes :: "('k \<rightharpoonup> real) \<Rightarrow> ('k \<rightharpoonup> real) \<Rightarrow> 'k \<Rightarrow> ('k \<rightharpoonup> real) \<Rightarrow> bool" where
  "relaxes old nxt c new \<longleftrightarrow>
     new c = Some ((the (old c) + the (nxt c)) * 0.5)
   \<and> min (the (old c)) (the (nxt c)) \<le> the (new c)
   \<and> the (new c) \<le> max (the (old c)) (the (nxt c))"

section \<open>Loops and indices\<close>

lemma for_loop_empty: "n \<le> i \<Longrightarrow> for_loop i n body s = Some s"
  by (simp add: for_loop.simps)

lemma for_loop_step:
  "i < n \<Longrightarrow> for_loop i n body s = Option.bind (body i s) (for_loop (i + 1) n body)"
  by (subst for_loop.simps) simp

lemma for_loop_rule:
  assumes "I i s"
    and "\<And>k t. i \<le> k \<Longrightarrow> k < n \<Longrightarrow> I k t \<Longrightarrow> \<exists>t'. body k t = Some t' \<and> I (k + 1) t'"
    and "i \<le> n"
  shows "\<exists>s'. for_loop i n body s = Some s' \<and> I n s'"
  using assms
proof (induction i n body s rule: for_loop.induct)
  case (1 i n body s)
  show ?case
  proof (cases "i < n")
    case True
    from 1(3)[of i s] True 1(2) obtain t where t: "body i s = Some t" "I (i + 1) t"
      by auto
    have "\<exists>s'. for_loop (i + 1) n body t = Some s' \<and> I n s'"
      using 1(1)[OF True t(1) t(2)] 1(3) True by force
    then show ?thesis using t(1) True by (simp add: for_loop_step)
  next
    case False
    with 1(4) have "i = n" by simp
    with 1(2) show ?thesis by (simp add: for_loop_empty)
  qed
qed

lemma idx_div: "0 \<le> j \<Longrightarrow> j < ny \<Longrightarrow> (i * ny + j) div ny = (i::int)"
  by (simp add: div_pos_pos_trivial)

lemma idx_mod: "0 \<le> j \<Longrightarrow> j < ny \<Longrightarrow> (i * ny + j) mod ny = (j::int)"
  by (simp add: mod_pos_pos_trivial)

lemma idx_range:
  assumes "0 \<le> i" "i < nx" "0 \<le> j" "j < ny"
  shows "0 \<le> i * ny + j \<and> i * ny + j < nx * (ny::int)"
proof -
  have "0 \<le> i * ny" using assms by simp
  moreover have "(i + 1) * ny \<le> nx * ny" using assms by (intro mult_right_mono) auto
  ultimately show ?thesis using assms by (simp add: algebra_simps)
qed

lemma allocated_read:
  "allocated (nx * ny) b \<Longrightarrow> 0 \<le> i \<Longrightarrow> i < nx \<Longrightarrow> 0 \<le> j \<Longrightarrow> j < ny \<Longrightarrow>
   \<exists>v. b (i * ny + j) = Some v"
  using idx_range[of i nx j ny] by (auto simp: allocated_def dom_def set_eq_iff)

lemma allocated_store:
  "allocated (nx * ny) b \<Longrightarrow> 0 \<le> i \<Longrightarrow> i < nx \<Longrightarrow> 0 \<le> j \<Longrightarrow> j < ny \<Longrightarrow>
   store b (i * ny + j) v = Some (b(i * ny + j \<mapsto> v))"
  using idx_range[of i nx j ny] by (auto simp: allocated_def store_def)

lemma allocated_upd:
  "allocated (nx * ny) b \<Longrightarrow> 0 \<le> i \<Longrightarrow> i < nx \<Longrightarrow> 0 \<le> j \<Longrightarrow> j < ny \<Longrightarrow>
   allocated (nx * ny) (b(i * ny + j \<mapsto> v))"
  using idx_range[of i nx j ny] by (auto simp: allocated_def)


lemma for_loop_writes:
  fixes s :: "'k \<rightharpoonup> real"
  assumes body: "\<And>k t. lo \<le> k \<Longrightarrow> k < hi \<Longrightarrow> dom t = dom s \<Longrightarrow>
       t = (\<lambda>a. if a \<in> (\<Union>k'\<in>{lo..<k}. W k') then Some (w a) else s a) \<Longrightarrow>
       body k t = Some (\<lambda>a. if a \<in> W k then Some (w a) else t a)"
    and sub: "\<And>k. lo \<le> k \<Longrightarrow> k < hi \<Longrightarrow> W k \<subseteq> dom s"
  shows "for_loop lo hi body s =
         Some (\<lambda>a. if a \<in> (\<Union>k\<in>{lo..<hi}. W k) then Some (w a) else s a)"
proof (cases "lo \<le> hi")
  case False
  then show ?thesis by (simp add: for_loop_empty)
next
  case True
  define I where "I k t \<longleftrightarrow> dom t = dom s \<and>
     t = (\<lambda>a. if a \<in> (\<Union>k'\<in>{lo..<k}. W k') then Some (w a) else s a)" for k t
  have base: "I lo s" by (simp add: I_def)
  have step: "\<exists>t'. body k t = Some t' \<and> I (k + 1) t'"
    if k: "lo \<le> k" "k < hi" and inv: "I k t" for k t
  proof -
    have d: "dom t = dom s"
      and t: "t = (\<lambda>a. if a \<in> (\<Union>k'\<in>{lo..<k}. W k') then Some (w a) else s a)"
      using inv unfolding I_def by blast+
    let ?t' = "\<lambda>a. if a \<in> W k then Some (w a) else t a"
    have b: "body k t = Some ?t'" by (rule body[OF k d t])
    have un: "(\<Union>k'\<in>{lo..<k + 1}. W k') = W k \<union> (\<Union>k'\<in>{lo..<k}. W k')"
    proof -
      have "{lo..<k + 1} = insert k {lo..<k}" using k by auto
      then show ?thesis by simp
    qed
    have "dom ?t' = dom s" using sub[OF k] d by (auto simp: dom_def split: if_splits)
    moreover have "?t' = (\<lambda>a. if a \<in> (\<Union>k'\<in>{lo..<k + 1}. W k') then Some (w a) else s a)"
    proof
      fix a
      have "t a = (if a \<in> (\<Union>k'\<in>{lo..<k}. W k') then Some (w a) else s a)"
        by (subst t) (rule refl)
      then show "?t' a = (if a \<in> (\<Union>k'\<in>{lo..<k + 1}. W k') then Some (w a) else s a)"
        unfolding un by (cases "a \<in> W k") simp_all
    qed
    ultimately show ?thesis using b by (simp add: I_def)
  qed
  from for_loop_rule[of I lo s hi body, OF base step True]
  obtain s' where s': "for_loop lo hi body s = Some s'" and "I hi s'" by blast
  then have "s' = (\<lambda>a. if a \<in> (\<Union>k\<in>{lo..<hi}. W k) then Some (w a) else s a)"
    unfolding I_def by blast
  then show ?thesis using s' by blast
qed

lemma allocated_dom: "allocated n b \<Longrightarrow> dom (t::buffer) = dom b \<Longrightarrow> allocated n t"
  by (simp add: allocated_def)

lemma stencil_row:
  assumes vi: "allocated (nx * ny) vi" and vr: "allocated (nx * ny) vr"
    and i: "1 \<le> i" "i < nx - 1"
  shows "for_loop 1 (ny - 1) (\<lambda>j vr. do {
         a \<leftarrow> vi ((i + 1) * ny + j);
         b \<leftarrow> vi ((i - 1) * ny + j);
         c \<leftarrow> vi (i * ny + (j - 1));
         d \<leftarrow> vi (i * ny + (j + 1));
         store vr (i * ny + j) ((a + b + c + d) * 0.25)
       }) vr
     = Some (\<lambda>a. if a \<in> (\<Union>j\<in>{1..<ny - 1}. {i * ny + j})
                  then Some (stencil_val vi ny a) else vr a)"
proof (rule for_loop_writes[where W = "\<lambda>j. {i * ny + j}" and w = "stencil_val vi ny"])
  fix j and t :: buffer
  assume j: "1 \<le> j" "j < ny - 1" and d: "dom t = dom vr"
  have t: "allocated (nx * ny) t" using vr d by (rule allocated_dom)
  obtain a where a: "vi ((i + 1) * ny + j) = Some a"
    using allocated_read[OF vi, of "i + 1" j] i j by auto
  obtain b where b: "vi ((i - 1) * ny + j) = Some b"
    using allocated_read[OF vi, of "i - 1" j] i j by auto
  obtain c where c: "vi (i * ny + (j - 1)) = Some c"
    using allocated_read[OF vi, of i "j - 1"] i j by auto
  obtain d where d: "vi (i * ny + (j + 1)) = Some d"
    using allocated_read[OF vi, of i "j + 1"] i j by auto
  have w: "store t (i * ny + j) v = Some (t(i * ny + j \<mapsto> v))" for v
    using allocated_store[OF t, of i j] i j by simp
  have e: "i * ny + j + ny = (i + 1) * ny + j" "i * ny + j - ny = (i - 1) * ny + j"
    "i * ny + j - 1 = i * ny + (j - 1)" "i * ny + j + 1 = i * ny + (j + 1)"
    by (simp_all add: algebra_simps)
  have v: "stencil_val vi ny (i * ny + j) = (a + b + c + d) * 0.25"
    unfolding stencil_val_def e a b c d by simp
  show "do {
         a \<leftarrow> vi ((i + 1) * ny + j);
         b \<leftarrow> vi ((i - 1) * ny + j);
         c \<leftarrow> vi (i * ny + (j - 1));
         d \<leftarrow> vi (i * ny + (j + 1));
         store t (i * ny + j) ((a + b + c + d) * 0.25)
       } = Some (\<lambda>a. if a \<in> {i * ny + j} then Some (stencil_val vi ny a) else t a)"
    by (auto simp: a b c d w v fun_eq_iff)
next
  fix j assume j: "1 \<le> j" "j < ny - 1"
  show "{i * ny + j} \<subseteq> dom vr"
    using idx_range[of i nx j ny] vr i j by (simp add: allocated_def)
qed


lemma stencil_block_closed:
  assumes vi: "allocated (nx * ny) vi" and vr: "allocated (nx * ny) vr"
  shows "stencil_update_block vi vr nx ny i_begin i_end =
     Some (\<lambda>a. if a \<in> (\<Union>i\<in>{max 1 i_begin..<min (nx - 1) i_end}. \<Union>j\<in>{1..<ny - 1}. {i * ny + j})
                  then Some (stencil_val vi ny a) else vr a)"
  unfolding stencil_update_block_def
proof (rule for_loop_writes[where W = "\<lambda>i. \<Union>j\<in>{1..<ny - 1}. {i * ny + j}"
      and w = "stencil_val vi ny"])
  fix i and t :: buffer
  assume i: "max 1 i_begin \<le> i" "i < min (nx - 1) i_end" and d: "dom t = dom vr"
  have t: "allocated (nx * ny) t" using vr d by (rule allocated_dom)
  show "for_loop 1 (ny - 1) (\<lambda>j vr. do {
         a \<leftarrow> vi ((i + 1) * ny + j);
         b \<leftarrow> vi ((i - 1) * ny + j);
         c \<leftarrow> vi (i * ny + (j - 1));
         d \<leftarrow> vi (i * ny + (j + 1));
         store vr (i * ny + j) ((a + b + c + d) * 0.25)
       }) t
     = Some (\<lambda>a. if a \<in> (\<Union>j\<in>{1..<ny - 1}. {i * ny + j})
                  then Some (stencil_val vi ny a) else t a)"
    using stencil_row[OF vi t, of i] i by simp
next
  fix i assume i: "max 1 i_begin \<le> i" "i < min (nx - 1) i_end"
  show "(\<Union>j\<in>{1..<ny - 1}. {i * ny + j}) \<subseteq> dom vr"
  proof
    fix a assume "a \<in> (\<Union>j\<in>{1..<ny - 1}. {i * ny + j})"
    then obtain j where j: "1 \<le> j" "j < ny - 1" "a = i * ny + j" by auto
    then show "a \<in> dom vr"
      using idx_range[of i nx j ny] vr i by (simp add: allocated_def)
  qed
qed

lemma interior_update_block:
  "interior_update vi nx ny vr = stencil_update_block vi vr nx ny 1 (nx - 1)"
  by (simp add: interior_update_def stencil_update_block_def quarter_def)

lemma idx_inj:
  assumes "i * ny + j = i' * ny + (j'::int)" "0 \<le> j" "j < ny" "0 \<le> j'" "j' < ny"
  shows "i = i' \<and> j = j'"
proof -
  have "(i * ny + j) div ny = i" "(i' * ny + j') div ny = i'"
    "(i * ny + j) mod ny = j" "(i' * ny + j') mod ny = j'"
    using assms(2-5) by (simp_all add: idx_div idx_mod)
  then show ?thesis using assms(1) by metis
qed


section \<open>Partitioning of the interior rows\<close>

lemma chunk_pos: "1 \<le> chunk_of nx W"
  by (simp add: chunk_of_def)

lemma block_lower: "0 \<le> k \<Longrightarrow> 1 \<le> block_begin nx W k"
  using chunk_pos[of nx W] by (simp add: block_begin_def)

lemma block_upper: "block_end nx W k \<le> nx - 1"
  by (simp add: block_end_def min_def)

lemma block_next:
  assumes "0 \<le> k" "k < k'" "k' < W"
  shows "block_end nx W k \<le> block_begin nx W k'"
proof -
  have "(k + 1) * chunk_of nx W \<le> k' * chunk_of nx W"
    using assms chunk_pos[of nx W] by (intro mult_right_mono) auto
  then have "block_begin nx W k + chunk_of nx W \<le> block_begin nx W k'"
    by (simp add: block_begin_def algebra_simps)
  moreover have "k \<noteq> W - 1" using assms by simp
  ultimately show ?thesis by (simp add: block_end_def)
qed

lemma block_cover:
  assumes W: "1 \<le> W" and x: "1 \<le> x" "x < nx - 1"
  shows "\<exists>k. 0 \<le> k \<and> k < W \<and> block_begin nx W k \<le> x \<and> x < block_end nx W k"
proof -
  define c where "c = chunk_of nx W"
  have c: "1 \<le> c" unfolding c_def by (rule chunk_pos)
  define k where "k = (x - 1) div c"
  have k0: "0 \<le> k" unfolding k_def using x c by (simp add: pos_imp_zdiv_nonneg_iff)
  have m: "0 \<le> (x - 1) mod c" "(x - 1) mod c < c" using c by simp_all
  have e: "k * c + (x - 1) mod c = x - 1" unfolding k_def by simp
  have lo: "k * c \<le> x - 1" using m e by linarith
  have hi: "x - 1 < k * c + c" using m e by linarith
  show ?thesis
  proof (cases "k < W - 1")
    case True
    have "block_begin nx W k \<le> x" using lo by (simp add: block_begin_def c_def)
    moreover have "x < block_end nx W k"
      using hi x True by (simp add: block_end_def block_begin_def c_def)
    ultimately show ?thesis using k0 True by (intro exI[of _ k]) simp
  next
    case False
    then have "(W - 1) * c \<le> k * c" using c by (intro mult_right_mono) auto
    then have "block_begin nx W (W - 1) \<le> x" using lo by (simp add: block_begin_def c_def)
    moreover have "x < block_end nx W (W - 1)" using x by (simp add: block_end_def)
    ultimately show ?thesis using W by (intro exI[of _ "W - 1"]) simp
  qed
qed


section \<open>The interior kernel\<close>

lemma block_union:
  assumes "1 \<le> W"
  shows "(\<Union>k\<in>{0..<W}. {block_begin nx W k ..< block_end nx W k}) = {1..<nx - 1}"
proof (rule set_eqI)
  fix x
  show "x \<in> (\<Union>k\<in>{0..<W}. {block_begin nx W k ..< block_end nx W k}) \<longleftrightarrow> x \<in> {1..<nx - 1}"
  proof
    assume "x \<in> (\<Union>k\<in>{0..<W}. {block_begin nx W k ..< block_end nx W k})"
    then obtain k where "0 \<le> k" "block_begin nx W k \<le> x" "x < block_end nx W k" by auto
    then show "x \<in> {1..<nx - 1}"
      using block_lower[of k nx W] block_upper[of nx W k] by simp
  next
    assume "x \<in> {1..<nx - 1}"
    then show "x \<in> (\<Union>k\<in>{0..<W}. {block_begin nx W k ..< block_end nx W k})"
      using block_cover[OF assms, of x nx] by auto
  qed
qed

lemma interior_threads_closed:
  assumes vi: "allocated (nx * ny) vi" and vr: "allocated (nx * ny) vr"
  shows "interior_threads hw vi nx ny vr =
     Some (\<lambda>a. if a \<in> (\<Union>i\<in>{1..<nx - 1}. \<Union>j\<in>{1..<ny - 1}. {i * ny + j})
                  then Some (stencil_val vi ny a) else vr a)"
proof -
  define W where "W = max 1 hw"
  have W: "1 \<le> W" by (simp add: W_def)
  define C where "C i = (\<Union>j\<in>{1..<ny - 1}. {i * ny + j})" for i
  define B where "B tid = (\<Union>i\<in>{max 1 (block_begin nx W tid)..<min (nx - 1) (block_end nx W tid)}. C i)"
    for tid
  have loop: "for_loop 0 W (\<lambda>tid vr. stencil_update_block vi vr nx ny
             (block_begin nx W tid) (block_end nx W tid)) vr
      = Some (\<lambda>a. if a \<in> (\<Union>tid\<in>{0..<W}. B tid) then Some (stencil_val vi ny a) else vr a)"
  proof (rule for_loop_writes[where W = B and w = "stencil_val vi ny"])
    fix tid and t :: buffer
    assume "dom t = dom vr"
    then have t: "allocated (nx * ny) t" using vr by (simp add: allocated_def)
    show "stencil_update_block vi t nx ny (block_begin nx W tid) (block_end nx W tid)
        = Some (\<lambda>a. if a \<in> B tid then Some (stencil_val vi ny a) else t a)"
      unfolding B_def C_def by (rule stencil_block_closed[OF vi t])
  next
    fix tid
    show "B tid \<subseteq> dom vr"
    proof
      fix a assume "a \<in> B tid"
      then obtain i j where "1 \<le> i" "i < nx - 1" "1 \<le> j" "j < ny - 1" "a = i * ny + j"
        by (auto simp: B_def C_def)
      then show "a \<in> dom vr"
        using idx_range[of i nx j ny] vr by (simp add: allocated_def)
    qed
  qed
  have "(\<Union>tid\<in>{0..<W}. B tid) = (\<Union>i\<in>(\<Union>tid\<in>{0..<W}. {block_begin nx W tid ..< block_end nx W tid}). C i)"
  proof -
    have "B tid = (\<Union>i\<in>{block_begin nx W tid ..< block_end nx W tid}. C i)"
      if "tid \<in> {0..<W}" for tid
    proof -
      have "max 1 (block_begin nx W tid) = block_begin nx W tid"
        using block_lower[of tid nx W] that by simp
      moreover have "min (nx - 1) (block_end nx W tid) = block_end nx W tid"
        using block_upper[of nx W tid] by simp
      ultimately show ?thesis by (simp add: B_def)
    qed
    then show ?thesis by auto
  qed
  also have "\<dots> = (\<Union>i\<in>{1..<nx - 1}. C i)" by (simp only: block_union[OF W])
  finally have "(\<Union>tid\<in>{0..<W}. B tid) = (\<Union>i\<in>{1..<nx - 1}. \<Union>j\<in>{1..<ny - 1}. {i * ny + j})"
    by (simp add: C_def)
  then show ?thesis using loop by (simp add: interior_threads_def W_def Let_def)
qed

lemma interior_update_closed:
  assumes vi: "allocated (nx * ny) vi" and vr: "allocated (nx * ny) vr"
  shows "interior_update vi nx ny vr =
     Some (\<lambda>a. if a \<in> (\<Union>i\<in>{1..<nx - 1}. \<Union>j\<in>{1..<ny - 1}. {i * ny + j})
                  then Some (stencil_val vi ny a) else vr a)"
  using stencil_block_closed[OF vi vr, of 1 "nx - 1"] by (simp add: interior_update_block)

lemma stencil_val_cell:
  "stencil_val vi ny (i * ny + j) =
     (the (vi ((i + 1) * ny + j)) + the (vi ((i - 1) * ny + j))
        + the (vi (i * ny + (j - 1))) + the (vi (i * ny + (j + 1)))) * 0.25"
proof -
  have e: "i * ny + j + ny = (i + 1) * ny + j" "i * ny + j - ny = (i - 1) * ny + j"
    "i * ny + j - 1 = i * ny + (j - 1)" "i * ny + j + 1 = i * ny + (j + 1)"
    by (simp_all add: algebra_simps)
  show ?thesis unfolding stencil_val_def e by (rule refl)
qed

lemma cell_in:
  "lo \<le> i \<Longrightarrow> i < hi \<Longrightarrow> 1 \<le> j \<Longrightarrow> j < n \<Longrightarrow>
   i * ny + j \<in> (\<Union>i\<in>{lo..<hi}. \<Union>j\<in>{1..<n}. {i * ny + j})"
  by (rule UN_I[of i], simp, rule UN_I[of j], simp_all)

lemma writes_interior_closed:
  "writes_interior vi vr ny lo hi
     (\<lambda>a. if a \<in> (\<Union>i\<in>{lo..<hi}. \<Union>j\<in>{1..<ny - 1}. {i * ny + j})
           then Some (stencil_val vi ny a) else vr a)"
  unfolding writes_interior_def
proof (intro conjI allI impI)
  fix i j assume "lo \<le> i \<and> i < hi \<and> 1 \<le> j \<and> j < ny - 1"
  then have "i * ny + j \<in> (\<Union>i\<in>{lo..<hi}. \<Union>j\<in>{1..<ny - 1}. {i * ny + j})"
    by (intro cell_in) simp_all
  then show "(if i * ny + j \<in> (\<Union>i\<in>{lo..<hi}. \<Union>j\<in>{1..<ny - 1}. {i * ny + j})
           then Some (stencil_val vi ny (i * ny + j)) else vr (i * ny + j)) =
          Some ((the (vi ((i + 1) * ny + j)) + the (vi ((i - 1) * ny + j))
                 + the (vi (i * ny + (j - 1))) + the (vi (i * ny + (j + 1)))) * 0.25)"
    by (simp only: if_True stencil_val_cell)
next
  fix k assume "\<forall>i j. lo \<le> i \<and> i < hi \<and> 1 \<le> j \<and> j < ny - 1 \<longrightarrow> k \<noteq> i * ny + j"
  then have "k \<notin> (\<Union>i\<in>{lo..<hi}. \<Union>j\<in>{1..<ny - 1}. {i * ny + j})" by auto
  then show "(if k \<in> (\<Union>i\<in>{lo..<hi}. \<Union>j\<in>{1..<ny - 1}. {i * ny + j})
           then Some (stencil_val vi ny k) else vr k) = vr k"
    by (simp only: if_False)
qed

lemma allocated_ramp: "allocated n (ramp n)"
  by (auto simp: allocated_def ramp_def dom_def)

lemma allocated_zeros: "allocated n (zeros n)"
  by (auto simp: allocated_def zeros_def dom_def)

lemma allocated_store':
  assumes "allocated (nx * ny) b" "0 \<le> i" "i < nx" "0 \<le> j" "j < ny"
  shows "store b (i * ny + j) v = Some (b(i * ny + j \<mapsto> v))"
    and "allocated (nx * ny) (b(i * ny + j \<mapsto> v))"
  using allocated_store[OF assms] allocated_upd[OF assms] by auto

lemma boundary_rows_closed:
  assumes nx: "2 \<le> nx" and vi: "allocated (nx * ny) vi" and vr: "allocated (nx * ny) vr"
  shows "boundary_rows vi nx ny vr =
     Some (\<lambda>a. if a \<in> (\<Union>j\<in>{1..<ny - 1}. {0 * ny + j, (nx - 1) * ny + j})
                  then Some (row_val vi ny a) else vr a)"
  unfolding boundary_rows_def
proof (rule for_loop_writes[where W = "\<lambda>j. {0 * ny + j, (nx - 1) * ny + j}"
      and w = "row_val vi ny"])
  fix j and t :: buffer
  assume j: "1 \<le> j" "j < ny - 1" and d: "dom t = dom vr"
  have t: "allocated (nx * ny) t" using vr d by (rule allocated_dom)
  obtain a where a: "vi (1 * ny + j) = Some a"
    using allocated_read[OF vi, of 1 j] nx j by auto
  obtain c where c: "vi (0 * ny + (j - 1)) = Some c"
    using allocated_read[OF vi, of 0 "j - 1"] nx j by auto
  obtain d where d: "vi (0 * ny + (j + 1)) = Some d"
    using allocated_read[OF vi, of 0 "j + 1"] nx j by auto
  obtain b where b: "vi ((nx - 2) * ny + j) = Some b"
    using allocated_read[OF vi, of "nx - 2" j] nx j by auto
  obtain c' where c': "vi ((nx - 1) * ny + (j - 1)) = Some c'"
    using allocated_read[OF vi, of "nx - 1" "j - 1"] nx j by auto
  obtain d' where d': "vi ((nx - 1) * ny + (j + 1)) = Some d'"
    using allocated_read[OF vi, of "nx - 1" "j + 1"] nx j by auto
  let ?v1 = "(a + 10.0 + c + d) * quarter"
  let ?v2 = "(5.0 + b + c' + d') * quarter"
  let ?t1 = "t(0 * ny + j \<mapsto> ?v1)"
  have w1: "store t (0 * ny + j) ?v1 = Some ?t1" and t1: "allocated (nx * ny) ?t1"
    using allocated_store'[OF t, of 0 j ?v1] nx j by auto
  have w2: "store ?t1 ((nx - 1) * ny + j) ?v2 = Some (?t1((nx - 1) * ny + j \<mapsto> ?v2))"
    using allocated_store'(1)[OF t1, of "nx - 1" j ?v2] nx j by auto
  have ge: "ny \<le> (nx - 1) * ny"
    using mult_right_mono[of 1 "nx - 1" ny] nx j by simp
  have e: "0 * ny + j + ny = 1 * ny + j" "0 * ny + j - 1 = 0 * ny + (j - 1)"
    "0 * ny + j + 1 = 0 * ny + (j + 1)" "(nx - 1) * ny + j - ny = (nx - 2) * ny + j"
    "(nx - 1) * ny + j - 1 = (nx - 1) * ny + (j - 1)"
    "(nx - 1) * ny + j + 1 = (nx - 1) * ny + (j + 1)"
    by (simp_all add: algebra_simps)
  have v1: "row_val vi ny (0 * ny + j) = ?v1"
    unfolding row_val_def top_val_def e a c d using j by simp
  have nlt: "\<not> (nx - 1) * ny + j < ny" using ge j by linarith
  have v2: "row_val vi ny ((nx - 1) * ny + j) = ?v2"
    unfolding row_val_def bottom_val_def e b c' d' if_not_P[OF nlt] by simp
  have ne: "0 * ny + j \<noteq> (nx - 1) * ny + j" using ge j by linarith
  have "do {
       a \<leftarrow> vi (1 * ny + j);
       c \<leftarrow> vi (0 * ny + (j - 1));
       d \<leftarrow> vi (0 * ny + (j + 1));
       vr \<leftarrow> store t (0 * ny + j) ((a + 10.0 + c + d) * quarter);
       b \<leftarrow> vi ((nx - 2) * ny + j);
       c \<leftarrow> vi ((nx - 1) * ny + (j - 1));
       d \<leftarrow> vi ((nx - 1) * ny + (j + 1));
       store vr ((nx - 1) * ny + j) ((5.0 + b + c + d) * quarter)
     } = Some (?t1((nx - 1) * ny + j \<mapsto> ?v2))"
    unfolding a c d w1 b c' d' w2 bind.bind_lunit by (rule refl)
  also have "?t1((nx - 1) * ny + j \<mapsto> ?v2) =
        (\<lambda>x. if x \<in> {0 * ny + j, (nx - 1) * ny + j} then Some (row_val vi ny x) else t x)"
  proof
    fix x
    show "(?t1((nx - 1) * ny + j \<mapsto> ?v2)) x =
        (if x \<in> {0 * ny + j, (nx - 1) * ny + j} then Some (row_val vi ny x) else t x)"
      using ne v1 v2 by (auto simp: fun_upd_def)
  qed
  finally show "do {
       a \<leftarrow> vi (1 * ny + j);
       c \<leftarrow> vi (0 * ny + (j - 1));
       d \<leftarrow> vi (0 * ny + (j + 1));
       vr \<leftarrow> store t (0 * ny + j) ((a + 10.0 + c + d) * quarter);
       b \<leftarrow> vi ((nx - 2) * ny + j);
       c \<leftarrow> vi ((nx - 1) * ny + (j - 1));
       d \<leftarrow> vi ((nx - 1) * ny + (j + 1));
       store vr ((nx - 1) * ny + j) ((5.0 + b + c + d) * quarter)
     } = Some (\<lambda>x. if x \<in> {0 * ny + j, (nx - 1) * ny + j} then Some (row_val vi ny x) else t x)" .
next
  fix j assume j: "1 \<le> j" "j < ny - 1"
  show "{0 * ny + j, (nx - 1) * ny + j} \<subseteq> dom vr"
    using idx_range[of 0 nx j ny] idx_range[of "nx - 1" nx j ny] vr nx j
    by (simp add: allocated_def)
qed

lemma boundary_columns_closed:
  assumes ny: "2 \<le> ny" and vi: "allocated (nx * ny) vi" and vr: "allocated (nx * ny) vr"
  shows "boundary_columns vi nx ny vr =
     Some (\<lambda>a. if a \<in> (\<Union>i\<in>{1..<nx - 1}. {i * ny + 0, i * ny + (ny - 1)})
                  then Some (col_val vi ny a) else vr a)"
  unfolding boundary_columns_def
proof (rule for_loop_writes[where W = "\<lambda>i. {i * ny + 0, i * ny + (ny - 1)}"
      and w = "col_val vi ny"])
  fix i and t :: buffer
  assume i: "1 \<le> i" "i < nx - 1" and d: "dom t = dom vr"
  have t: "allocated (nx * ny) t" using vr d by (rule allocated_dom)
  obtain a where a: "vi ((i + 1) * ny + 0) = Some a"
    using allocated_read[OF vi, of "i + 1" 0] ny i by auto
  obtain b where b: "vi ((i - 1) * ny + 0) = Some b"
    using allocated_read[OF vi, of "i - 1" 0] ny i by auto
  obtain d where d: "vi (i * ny + 1) = Some d"
    using allocated_read[OF vi, of i 1] ny i by auto
  obtain a' where a': "vi ((i + 1) * ny + (ny - 1)) = Some a'"
    using allocated_read[OF vi, of "i + 1" "ny - 1"] ny i by auto
  obtain b' where b': "vi ((i - 1) * ny + (ny - 1)) = Some b'"
    using allocated_read[OF vi, of "i - 1" "ny - 1"] ny i by auto
  obtain c' where c': "vi (i * ny + (ny - 2)) = Some c'"
    using allocated_read[OF vi, of i "ny - 2"] ny i by auto
  let ?v1 = "(a + b + 15.45 + d) * quarter"
  let ?v2 = "(a' + b' + c' - 6.7) * quarter"
  let ?t1 = "t(i * ny + 0 \<mapsto> ?v1)"
  have w1: "store t (i * ny + 0) ?v1 = Some ?t1" and t1: "allocated (nx * ny) ?t1"
    using allocated_store'[OF t, of i 0 ?v1] ny i by auto
  have w2: "store ?t1 (i * ny + (ny - 1)) ?v2 = Some (?t1(i * ny + (ny - 1) \<mapsto> ?v2))"
    using allocated_store'(1)[OF t1, of i "ny - 1" ?v2] ny i by auto
  have e: "i * ny + 0 + ny = (i + 1) * ny + 0" "i * ny + 0 - ny = (i - 1) * ny + 0"
    "i * ny + 0 + 1 = i * ny + 1" "i * ny + (ny - 1) + ny = (i + 1) * ny + (ny - 1)"
    "i * ny + (ny - 1) - ny = (i - 1) * ny + (ny - 1)"
    "i * ny + (ny - 1) - 1 = i * ny + (ny - 2)"
    by (simp_all add: algebra_simps)
  have m0: "(i * ny + 0) mod ny = 0" using idx_mod[of 0 ny i] ny by simp
  have m1: "(i * ny + (ny - 1)) mod ny \<noteq> 0" using idx_mod[of "ny - 1" ny i] ny by simp
  have v1: "col_val vi ny (i * ny + 0) = ?v1"
    unfolding col_val_def left_val_def e a b d if_P[OF m0] by simp
  have v2: "col_val vi ny (i * ny + (ny - 1)) = ?v2"
    unfolding col_val_def right_val_def e a' b' c' if_not_P[OF m1] by simp
  have ne: "i * ny + 0 \<noteq> i * ny + (ny - 1)" using ny by simp
  have "do {
       a \<leftarrow> vi ((i + 1) * ny + 0);
       b \<leftarrow> vi ((i - 1) * ny + 0);
       d \<leftarrow> vi (i * ny + 1);
       vr \<leftarrow> store t (i * ny + 0) ((a + b + 15.45 + d) * quarter);
       a \<leftarrow> vi ((i + 1) * ny + (ny - 1));
       b \<leftarrow> vi ((i - 1) * ny + (ny - 1));
       c \<leftarrow> vi (i * ny + (ny - 2));
       store vr (i * ny + (ny - 1)) ((a + b + c - 6.7) * quarter)
     } = Some (?t1(i * ny + (ny - 1) \<mapsto> ?v2))"
    unfolding a b d w1 a' b' c' w2 bind.bind_lunit by (rule refl)
  also have "?t1(i * ny + (ny - 1) \<mapsto> ?v2) =
        (\<lambda>x. if x \<in> {i * ny + 0, i * ny + (ny - 1)} then Some (col_val vi ny x) else t x)"
  proof
    fix x
    show "(?t1(i * ny + (ny - 1) \<mapsto> ?v2)) x =
        (if x \<in> {i * ny + 0, i * ny + (ny - 1)} then Some (col_val vi ny x) else t x)"
      using ne v1 v2 by (auto simp: fun_upd_def)
  qed
  finally show "do {
       a \<leftarrow> vi ((i + 1) * ny + 0);
       b \<leftarrow> vi ((i - 1) * ny + 0);
       d \<leftarrow> vi (i * ny + 1);
       vr \<leftarrow> store t (i * ny + 0) ((a + b + 15.45 + d) * quarter);
       a \<leftarrow> vi ((i + 1) * ny + (ny - 1));
       b \<leftarrow> vi ((i - 1) * ny + (ny - 1));
       c \<leftarrow> vi (i * ny + (ny - 2));
       store vr (i * ny + (ny - 1)) ((a + b + c - 6.7) * quarter)
     } = Some (\<lambda>x. if x \<in> {i * ny + 0, i * ny + (ny - 1)} then Some (col_val vi ny x) else t x)" .
next
  fix i assume i: "1 \<le> i" "i < nx - 1"
  show "{i * ny + 0, i * ny + (ny - 1)} \<subseteq> dom vr"
    using idx_range[of i nx 0 ny] idx_range[of i nx "ny - 1" ny] vr ny i
    by (simp add: allocated_def)
qed

section \<open>Diagnostics and relaxation\<close>

lemma for_loop_append:
  assumes body: "\<And>k out. lo \<le> k \<Longrightarrow> k < hi \<Longrightarrow> body k out = Some (out @ f k)"
  shows "for_loop lo hi body out = Some (out @ concat (map f [lo..hi - 1]))"
proof (cases "lo \<le> hi")
  case False
  then show ?thesis by (simp add: for_loop_empty)
next
  case True
  define I where "I k s \<longleftrightarrow> s = out @ concat (map f [lo..k - 1])" for k s
  have base: "I lo out" by (simp add: I_def)
  have step: "\<exists>t'. body k t = Some t' \<and> I (k + 1) t'"
    if k: "lo \<le> k" "k < hi" and inv: "I k t" for k t
  proof -
    have "[lo..k + 1 - 1] = [lo..k - 1] @ [k]" using k upto_rec2[of lo k] by simp
    then have "I (k + 1) (t @ f k)" using inv by (simp add: I_def)
    then show ?thesis using body[OF k, of t] by simp
  qed
  from for_loop_rule[of I lo out hi body, OF base step True]
  show ?thesis by (auto simp: I_def)
qed

lemma diagnostic_scan_closed:
  assumes vi: "allocated (nx * ny) vi" and vr: "allocated (nx * ny) vr"
  shows "diagnostic_scan vi vr nx ny t out = Some (out @ diag_records vi vr nx ny t)"
  unfolding diagnostic_scan_def diag_records_def
proof (rule for_loop_append)
  fix i out assume i: "0 \<le> i" "i < nx"
  show "for_loop 0 ny (\<lambda>j out. do {
         r \<leftarrow> vr (i * ny + j);
         c \<leftarrow> vi (i * ny + j);
         Some (if \<bar>\<bar>r\<bar> - \<bar>c\<bar>\<bar> < 0.01 then out @ [(t, i, j, \<bar>c\<bar>, \<bar>r\<bar>)] else out)
       }) out
     = Some (out @ concat (map (\<lambda>j. if \<bar>\<bar>the (vr (i * ny + j))\<bar> - \<bar>the (vi (i * ny + j))\<bar>\<bar> < 0.01
                then [(t, i, j, \<bar>the (vi (i * ny + j))\<bar>, \<bar>the (vr (i * ny + j))\<bar>)] else [])
              [0..ny - 1]))"
  proof (rule for_loop_append)
    fix j out assume j: "0 \<le> j" "j < ny"
    obtain r where r: "vr (i * ny + j) = Some r"
      using allocated_read[OF vr, of i j] i j by auto
    obtain c where c: "vi (i * ny + j) = Some c"
      using allocated_read[OF vi, of i j] i j by auto
    show "do {
         r \<leftarrow> vr (i * ny + j);
         c \<leftarrow> vi (i * ny + j);
         Some (if \<bar>\<bar>r\<bar> - \<bar>c\<bar>\<bar> < 0.01 then out @ [(t, i, j, \<bar>c\<bar>, \<bar>r\<bar>)] else out)
       } = Some (out @ (if \<bar>\<bar>the (vr (i * ny + j))\<bar> - \<bar>the (vi (i * ny + j))\<bar>\<bar> < 0.01
                then [(t, i, j, \<bar>the (vi (i * ny + j))\<bar>, \<bar>the (vr (i * ny + j))\<bar>)] else []))"
      by (simp add: r c)
  qed
qed

lemma relax_range_closed:
  assumes vr: "allocated n vr" and t: "allocated n t"
    and lo: "0 \<le> lo" and hi: "hi \<le> n"
    and same: "\<And>a. lo \<le> a \<Longrightarrow> a < hi \<Longrightarrow> t a = vi a"
  shows "for_loop lo hi (\<lambda>k vi. do {
       a \<leftarrow> vi k;
       b \<leftarrow> vr k;
       store vi k ((a + b) * half)
     }) t = Some (\<lambda>a. if a \<in> {lo..<hi} then Some (relaxed vi vr a) else t a)"
proof -
  have "for_loop lo hi (\<lambda>k vi. do {
       a \<leftarrow> vi k;
       b \<leftarrow> vr k;
       store vi k ((a + b) * half)
     }) t = Some (\<lambda>a. if a \<in> (\<Union>k\<in>{lo..<hi}. {k}) then Some (relaxed vi vr a) else t a)"
  proof (rule for_loop_writes[where W = "\<lambda>k. {k}" and w = "relaxed vi vr"])
    fix k and u :: buffer
    assume k: "lo \<le> k" "k < hi" and d: "dom u = dom t"
      and u: "u = (\<lambda>a. if a \<in> (\<Union>k'\<in>{lo..<k}. {k'}) then Some (relaxed vi vr a) else t a)"
    have uk: "u k = vi k" using same[OF k] by (subst u) simp
    have kd: "k \<in> dom t" "k \<in> dom vr" using k lo hi t vr by (auto simp: allocated_def)
    then obtain a b where a: "t k = Some a" and b: "vr k = Some b" by auto
    have va: "vi k = Some a" using same[OF k] a by simp
    have w: "store u k v = Some (u(k \<mapsto> v))" for v using kd d by (simp add: store_def)
    show "do {
       a \<leftarrow> u k;
       b \<leftarrow> vr k;
       store u k ((a + b) * half)
     } = Some (\<lambda>a. if a \<in> {k} then Some (relaxed vi vr a) else u a)"
      by (auto simp: uk va b w relaxed_def fun_eq_iff)
  next
    fix k assume "lo \<le> k" "k < hi"
    then show "{k} \<subseteq> dom t" using lo hi t by (auto simp: allocated_def)
  qed
  moreover have "(\<Union>k\<in>{lo..<hi}. {k}) = {lo..<hi}" by auto
  ultimately show ?thesis by simp
qed

lemma relax_closed:
  assumes vi: "allocated (nx * ny) vi" and vr: "allocated (nx * ny) vr"
  shows "relax vr nx ny vi =
     Some (\<lambda>a. if a \<in> {0..<nx * ny} then Some (relaxed vi vr a) else vi a)"
  unfolding relax_def by (rule relax_range_closed[OF vr vi]) simp_all

lemma chunk_cover:
  assumes c: "1 \<le> c" and W: "1 \<le> W" and x: "0 \<le> x" "x < (tot::int)"
  shows "\<exists>k. 0 \<le> k \<and> k < W \<and> k * c \<le> x
           \<and> x < (if k = W - 1 then tot else min tot (k * c + c))"
proof -
  define k where "k = x div c"
  have k0: "0 \<le> k" unfolding k_def using x c by (simp add: pos_imp_zdiv_nonneg_iff)
  have m: "0 \<le> x mod c" "x mod c < c" using c by simp_all
  have e: "k * c + x mod c = x" unfolding k_def by simp
  have lo: "k * c \<le> x" using m e by linarith
  have hi: "x < k * c + c" using m e by linarith
  show ?thesis
  proof (cases "k < W - 1")
    case True
    then show ?thesis using k0 lo hi x by (intro exI[of _ k]) simp
  next
    case False
    then have "(W - 1) * c \<le> k * c" using c by (intro mult_right_mono) auto
    then have "(W - 1) * c \<le> x" using lo by simp
    then show ?thesis using W x by (intro exI[of _ "W - 1"]) simp
  qed
qed

lemma chunk_next:
  assumes c: "1 \<le> c" and k: "0 \<le> k" "k < k'" "k' < (W::int)"
  shows "(if k = W - 1 then tot else min tot (k * c + c)) \<le> k' * c"
proof -
  have "(k + 1) * c \<le> k' * c" using c k by (intro mult_right_mono) auto
  then have "k * c + c \<le> k' * c" by (simp add: algebra_simps)
  moreover have "k \<noteq> W - 1" using k by simp
  ultimately show ?thesis by simp
qed

lemma relax_threads_closed:
  assumes vi: "allocated (nx * ny) vi" and vr: "allocated (nx * ny) vr"
  shows "relax_threads hw vr nx ny vi =
     Some (\<lambda>a. if a \<in> {0..<nx * ny} then Some (relaxed vi vr a) else vi a)"
proof -
  define W where "W = max 1 hw"
  define tot where "tot = nx * ny"
  define c where "c = max 1 (tot div W)"
  define E where "E tid = (if tid = W - 1 then tot else min tot (tid * c + c))" for tid
  have W: "1 \<le> W" and c: "1 \<le> c" by (simp_all add: W_def c_def)
  have E: "E tid \<le> tot" for tid by (simp add: E_def)
  have loop: "for_loop 0 W (\<lambda>tid vi. avg_block vr (tid * c) (E tid) vi) vi
      = Some (\<lambda>a. if a \<in> (\<Union>tid\<in>{0..<W}. {tid * c..<E tid}) then Some (relaxed vi vr a) else vi a)"
  proof (rule for_loop_writes[where W = "\<lambda>tid. {tid * c..<E tid}" and w = "relaxed vi vr"])
    fix tid and u :: buffer
    assume tid: "0 \<le> tid" "tid < W" and d: "dom u = dom vi"
      and u: "u = (\<lambda>a. if a \<in> (\<Union>k'\<in>{0..<tid}. {k' * c..<E k'}) then Some (relaxed vi vr a)
                       else vi a)"
    have ua: "allocated tot u" using vi d by (simp add: allocated_def tot_def)
    have same: "u a = vi a" if a: "tid * c \<le> a" "a < E tid" for a
    proof -
      have "a \<notin> {k' * c..<E k'}" if "k' \<in> {0..<tid}" for k'
        using chunk_next[OF c, of k' tid W tot] that tid a by (auto simp: E_def)
      then have nin: "a \<notin> (\<Union>k'\<in>{0..<tid}. {k' * c..<E k'})" by blast
      have "u a = (if a \<in> (\<Union>k'\<in>{0..<tid}. {k' * c..<E k'}) then Some (relaxed vi vr a)
                       else vi a)" by (subst u) (rule refl)
      then show ?thesis by (simp only: nin if_False)
    qed
    have lo: "0 \<le> tid * c" using tid c by simp
    show "avg_block vr (tid * c) (E tid) u
        = Some (\<lambda>a. if a \<in> {tid * c..<E tid} then Some (relaxed vi vr a) else u a)"
      unfolding avg_block_def
      using relax_range_closed[of tot vr u "tid * c" "E tid" vi] vr ua lo E[of tid] same
      by (simp add: tot_def)
  next
    fix tid assume tid: "0 \<le> tid" "tid < W"
    have "0 \<le> tid * c" using tid c by simp
    then show "{tid * c..<E tid} \<subseteq> dom vi"
      using E[of tid] vi by (auto simp: allocated_def tot_def)
  qed
  have un: "(\<Union>tid\<in>{0..<W}. {tid * c..<E tid}) = {0..<tot}"
  proof (rule set_eqI)
    fix x
    show "x \<in> (\<Union>tid\<in>{0..<W}. {tid * c..<E tid}) \<longleftrightarrow> x \<in> {0..<tot}"
    proof
      assume "x \<in> (\<Union>tid\<in>{0..<W}. {tid * c..<E tid})"
      then obtain k where k: "0 \<le> k" "k * c \<le> x" "x < E k" by auto
      have "0 \<le> k * c" using k c by simp
      then show "x \<in> {0..<tot}" using k E[of k] by simp
    next
      assume "x \<in> {0..<tot}"
      then obtain k where "0 \<le> k" "k < W" "k * c \<le> x" "x < E k"
        using chunk_cover[OF c W, of x tot] unfolding E_def by auto
      then have "k \<in> {0..<W}" "x \<in> {k * c..<E k}" by simp_all
      then show "x \<in> (\<Union>tid\<in>{0..<W}. {tid * c..<E tid})" by blast
    qed
  qed
  have "relax_threads hw vr nx ny vi
        = for_loop 0 W (\<lambda>tid vi. avg_block vr (tid * c) (E tid) vi) vi"
    unfolding relax_threads_def Let_def W_def tot_def c_def E_def by (rule refl)
  then show ?thesis using loop un by (simp add: tot_def)
qed

section \<open>One time step\<close>

lemma allocated_writes:
  assumes "allocated n b" and "S \<subseteq> {0..<n}"
  shows "allocated n (\<lambda>a. if a \<in> S then Some (w a) else b a)"
  using assms by (auto simp: allocated_def dom_def split: if_splits)

lemma interior_cells_sub:
  "(\<Union>i\<in>{lo..<hi}. \<Union>j\<in>{1..<ny - 1}. {i * ny + j}) \<subseteq> {0..<nx * (ny::int)}"
  if "1 \<le> lo" "hi \<le> nx - 1"
proof
  fix a assume "a \<in> (\<Union>i\<in>{lo..<hi}. \<Union>j\<in>{1..<ny - 1}. {i * ny + j})"
  then obtain i j where "lo \<le> i" "i < hi" "1 \<le> j" "j < ny - 1" "a = i * ny + j" by auto
  then show "a \<in> {0..<nx * ny}" using idx_range[of i nx j ny] that by simp
qed

lemma row_cells_sub:
  "(\<Union>j\<in>{1..<ny - 1}. {0 * ny + j, (nx - 1) * ny + j}) \<subseteq> {0..<nx * (ny::int)}" if "1 \<le> nx"
proof
  fix a assume "a \<in> (\<Union>j\<in>{1..<ny - 1}. {0 * ny + j, (nx - 1) * ny + j})"
  then obtain j where j: "1 \<le> j" "j < ny - 1" "a = 0 * ny + j \<or> a = (nx - 1) * ny + j" by auto
  then show "a \<in> {0..<nx * ny}"
    using idx_range[of 0 nx j ny] idx_range[of "nx - 1" nx j ny] that by auto
qed

lemma col_cells_sub:
  "(\<Union>i\<in>{1..<nx - 1}. {i * ny + 0, i * ny + (ny - 1)}) \<subseteq> {0..<nx * (ny::int)}" if "1 \<le> ny"
proof
  fix a assume "a \<in> (\<Union>i\<in>{1..<nx - 1}. {i * ny + 0, i * ny + (ny - 1)})"
  then obtain i where i: "1 \<le> i" "i < nx - 1" "a = i * ny + 0 \<or> a = i * ny + (ny - 1)" by auto
  then show "a \<in> {0..<nx * ny}"
    using idx_range[of i nx 0 ny] idx_range[of i nx "ny - 1" ny] that by auto
qed

lemma next_closed:
  assumes nx: "2 \<le> nx" and ny: "2 \<le> ny"
    and vi: "allocated (nx * ny) vi" and vr: "allocated (nx * ny) vr"
    and int: "interior vr = Some (\<lambda>a. if a \<in> (\<Union>i\<in>{1..<nx - 1}. \<Union>j\<in>{1..<ny - 1}. {i * ny + j})
                  then Some (stencil_val vi ny a) else vr a)"
  shows "do { vr1 \<leftarrow> interior vr;
              vr2 \<leftarrow> boundary_rows vi nx ny vr1;
              boundary_columns vi nx ny vr2 } = Some (next_field vi vr nx ny)"
    and "allocated (nx * ny) (next_field vi vr nx ny)"
proof -
  let ?v1 = "\<lambda>a. if a \<in> (\<Union>i\<in>{1..<nx - 1}. \<Union>j\<in>{1..<ny - 1}. {i * ny + j})
                  then Some (stencil_val vi ny a) else vr a"
  let ?v2 = "\<lambda>a. if a \<in> (\<Union>j\<in>{1..<ny - 1}. {0 * ny + j, (nx - 1) * ny + j})
                  then Some (row_val vi ny a) else ?v1 a"
  let ?v3 = "\<lambda>a. if a \<in> (\<Union>i\<in>{1..<nx - 1}. {i * ny + 0, i * ny + (ny - 1)})
                  then Some (col_val vi ny a) else ?v2 a"
  have a1: "allocated (nx * ny) ?v1"
    by (rule allocated_writes[OF vr interior_cells_sub]) simp_all
  have a2: "allocated (nx * ny) ?v2"
    by (rule allocated_writes[OF a1 row_cells_sub]) (use nx in simp)
  have a3: "allocated (nx * ny) ?v3"
    by (rule allocated_writes[OF a2 col_cells_sub]) (use ny in simp)
  have r: "boundary_rows vi nx ny ?v1 = Some ?v2"
    by (rule boundary_rows_closed[OF nx vi a1])
  have c: "boundary_columns vi nx ny ?v2 = Some ?v3"
    by (rule boundary_columns_closed[OF ny vi a2])
  have e: "?v3 = next_field vi vr nx ny" unfolding next_field_def by (rule refl)
  show "do { vr1 \<leftarrow> interior vr;
              vr2 \<leftarrow> boundary_rows vi nx ny vr1;
              boundary_columns vi nx ny vr2 } = Some (next_field vi vr nx ny)"
    unfolding int bind.bind_lunit r c e by (rule refl)
  show "allocated (nx * ny) (next_field vi vr nx ny)" using a3 unfolding e .
qed

lemma step_optimized_closed:
  assumes nx: "2 \<le> nx" and ny: "2 \<le> ny"
    and vi: "allocated (nx * ny) (sim_vi s)" and vr: "allocated (nx * ny) (sim_vr s)"
  shows "step_optimized nx ny t s = Some (step_closed nx ny t s)"
proof -
  let ?n = "next_field (sim_vi s) (sim_vr s) nx ny"
  note n = next_closed[OF nx ny vi vr, of "interior_update (sim_vi s) nx ny",
      OF interior_update_closed[OF vi vr]]
  have i: "interior_update (sim_vi s) nx ny (sim_vr s) \<bind>
        (\<lambda>vr1. boundary_rows (sim_vi s) nx ny vr1 \<bind>
           (\<lambda>vr2. boundary_columns (sim_vi s) nx ny vr2 \<bind> f)) = f ?n" for f :: "buffer \<Rightarrow> 'z option"
  proof -
    have "interior_update (sim_vi s) nx ny (sim_vr s) \<bind>
        (\<lambda>vr1. boundary_rows (sim_vi s) nx ny vr1 \<bind>
           (\<lambda>vr2. boundary_columns (sim_vi s) nx ny vr2 \<bind> f))
       = (interior_update (sim_vi s) nx ny (sim_vr s) \<bind>
        (\<lambda>vr1. boundary_rows (sim_vi s) nx ny vr1 \<bind>
           (\<lambda>vr2. boundary_columns (sim_vi s) nx ny vr2))) \<bind> f"
      by (simp add: bind_assoc)
    then show ?thesis using n(1) by simp
  qed
  show ?thesis
    unfolding step_optimized_def Let_def
    by (simp add: i diagnostic_scan_closed[OF vi n(2)] relax_closed[OF vi n(2)] step_closed_def Let_def)
qed

lemma step_parallel_closed:
  assumes nx: "2 \<le> nx" and ny: "2 \<le> ny"
    and vi: "allocated (nx * ny) (sim_vi s)" and vr: "allocated (nx * ny) (sim_vr s)"
  shows "step_parallel hw nx ny t s = Some (step_closed nx ny t s)"
proof -
  let ?n = "next_field (sim_vi s) (sim_vr s) nx ny"
  note n = next_closed[OF nx ny vi vr, of "interior_threads hw (sim_vi s) nx ny",
      OF interior_threads_closed[OF vi vr]]
  have i: "interior_threads hw (sim_vi s) nx ny (sim_vr s) \<bind>
        (\<lambda>vr1. boundary_rows (sim_vi s) nx ny vr1 \<bind>
           (\<lambda>vr2. boundary_columns (sim_vi s) nx ny vr2 \<bind> f)) = f ?n" for f :: "buffer \<Rightarrow> 'z option"
  proof -
    have "interior_threads hw (sim_vi s) nx ny (sim_vr s) \<bind>
        (\<lambda>vr1. boundary_rows (sim_vi s) nx ny vr1 \<bind>
           (\<lambda>vr2. boundary_columns (sim_vi s) nx ny vr2 \<bind> f))
       = (interior_threads hw (sim_vi s) nx ny (sim_vr s) \<bind>
        (\<lambda>vr1. boundary_rows (sim_vi s) nx ny vr1 \<bind>
           (\<lambda>vr2. boundary_columns (sim_vi s) nx ny vr2))) \<bind> f"
      by (simp add: bind_assoc)
    then show ?thesis using n(1) by simp
  qed
  show ?thesis
    unfolding step_parallel_def Let_def
    by (simp add: i diagnostic_scan_closed[OF vi n(2)] relax_threads_closed[OF vi n(2)]
        step_closed_def Let_def)
qed

lemma step_closed_allocated:
  assumes "2 \<le> nx" "2 \<le> ny"
    and "allocated (nx * ny) (sim_vi s)" "allocated (nx * ny) (sim_vr s)"
  shows "allocated (nx * ny) (sim_vi (step_closed nx ny t s))"
    and "allocated (nx * ny) (sim_vr (step_closed nx ny t s))"
proof -
  show "allocated (nx * ny) (sim_vr (step_closed nx ny t s))"
    using next_closed(2)[OF assms, of "interior_update (sim_vi s) nx ny",
      OF interior_update_closed[OF assms(3,4)]]
    by (simp add: step_closed_def Let_def)
  show "allocated (nx * ny) (sim_vi (step_closed nx ny t s))"
    using allocated_writes[OF assms(3), of "{0..<nx * ny}"]
    by (simp add: step_closed_def Let_def)
qed

lemma in_cols:
  assumes "0 \<le> j" "j < (ny::int)"
  shows "i * ny + j \<in> (\<Union>i\<in>{1..<nx - 1}. {i * ny + 0, i * ny + (ny - 1)})
         \<longleftrightarrow> 1 \<le> i \<and> i < nx - 1 \<and> (j = 0 \<or> j = ny - 1)"
proof
  assume "i * ny + j \<in> (\<Union>i\<in>{1..<nx - 1}. {i * ny + 0, i * ny + (ny - 1)})"
  then obtain i' where i': "1 \<le> i'" "i' < nx - 1"
    "i * ny + j = i' * ny + 0 \<or> i * ny + j = i' * ny + (ny - 1)" by auto
  then show "1 \<le> i \<and> i < nx - 1 \<and> (j = 0 \<or> j = ny - 1)"
    using idx_inj[of i ny j i' 0] idx_inj[of i ny j i' "ny - 1"] assms by auto
next
  assume a: "1 \<le> i \<and> i < nx - 1 \<and> (j = 0 \<or> j = ny - 1)"
  then have "i \<in> {1..<nx - 1}" "i * ny + j \<in> {i * ny + 0, i * ny + (ny - 1)}" by auto
  then show "i * ny + j \<in> (\<Union>i\<in>{1..<nx - 1}. {i * ny + 0, i * ny + (ny - 1)})" by blast
qed

lemma in_rows:
  assumes "0 \<le> j" "j < (ny::int)"
  shows "i * ny + j \<in> (\<Union>j\<in>{1..<ny - 1}. {0 * ny + j, (nx - 1) * ny + j})
         \<longleftrightarrow> 1 \<le> j \<and> j < ny - 1 \<and> (i = 0 \<or> i = nx - 1)"
proof
  assume "i * ny + j \<in> (\<Union>j\<in>{1..<ny - 1}. {0 * ny + j, (nx - 1) * ny + j})"
  then obtain j' where j': "1 \<le> j'" "j' < ny - 1"
    "i * ny + j = 0 * ny + j' \<or> i * ny + j = (nx - 1) * ny + j'" by auto
  then show "1 \<le> j \<and> j < ny - 1 \<and> (i = 0 \<or> i = nx - 1)"
    using idx_inj[of i ny j 0 j'] idx_inj[of i ny j "nx - 1" j'] assms by auto
next
  assume a: "1 \<le> j \<and> j < ny - 1 \<and> (i = 0 \<or> i = nx - 1)"
  then have "j \<in> {1..<ny - 1}" "i * ny + j \<in> {0 * ny + j, (nx - 1) * ny + j}" by auto
  then show "i * ny + j \<in> (\<Union>j\<in>{1..<ny - 1}. {0 * ny + j, (nx - 1) * ny + j})" by blast
qed

lemma in_interior:
  assumes "0 \<le> j" "j < (ny::int)"
  shows "i * ny + j \<in> (\<Union>i\<in>{lo..<hi}. \<Union>j\<in>{1..<ny - 1}. {i * ny + j})
         \<longleftrightarrow> lo \<le> i \<and> i < hi \<and> 1 \<le> j \<and> j < ny - 1"
proof
  assume "i * ny + j \<in> (\<Union>i\<in>{lo..<hi}. \<Union>j\<in>{1..<ny - 1}. {i * ny + j})"
  then obtain i' j' where "lo \<le> i'" "i' < hi" "1 \<le> j'" "j' < ny - 1"
    "i * ny + j = i' * ny + j'" by auto
  then show "lo \<le> i \<and> i < hi \<and> 1 \<le> j \<and> j < ny - 1"
    using idx_inj[of i ny j i' j'] assms by auto
next
  assume "lo \<le> i \<and> i < hi \<and> 1 \<le> j \<and> j < ny - 1"
  then show "i * ny + j \<in> (\<Union>i\<in>{lo..<hi}. \<Union>j\<in>{1..<ny - 1}. {i * ny + j})"
    by (intro cell_in) simp_all
qed

lemma next_field_cell:
  assumes "0 \<le> j" "j < ny"
  shows "next_field vi vr nx ny (i * ny + j) =
     (if 1 \<le> i \<and> i < nx - 1 \<and> (j = 0 \<or> j = ny - 1) then Some (col_val vi ny (i * ny + j))
      else if 1 \<le> j \<and> j < ny - 1 \<and> (i = 0 \<or> i = nx - 1) then Some (row_val vi ny (i * ny + j))
      else if 1 \<le> i \<and> i < nx - 1 \<and> 1 \<le> j \<and> j < ny - 1 then Some (stencil_val vi ny (i * ny + j))
      else vr (i * ny + j))"
  unfolding next_field_def in_cols[OF assms] in_rows[OF assms] in_interior[OF assms]
  by (rule refl)

lemma next_field_policy:
  assumes nx: "2 < nx" and ny: "2 < ny"
  shows "boundary_policy vi nx ny (next_field vi vr nx ny)"
  unfolding boundary_policy_def
proof (intro conjI allI impI)
  fix j assume j: "1 \<le> j \<and> j < ny - 1"
  have e: "0 * ny + j + ny = 1 * ny + j" "0 * ny + j - 1 = 0 * ny + (j - 1)"
    "0 * ny + j + 1 = 0 * ny + (j + 1)" by (simp_all add: algebra_simps)
  have lt: "0 * ny + j < ny" using j by simp
  show "next_field vi vr nx ny (0 * ny + j) =
          Some ((the (vi (1 * ny + j)) + 10.0 + the (vi (0 * ny + (j - 1)))
                  + the (vi (0 * ny + (j + 1)))) * 0.25)"
    using next_field_cell[of j ny vi vr nx 0] j nx
    unfolding row_val_def top_val_def e if_P[OF lt] quarter_def by simp
next
  fix j assume j: "1 \<le> j \<and> j < ny - 1"
  have e: "(nx - 1) * ny + j - ny = (nx - 2) * ny + j"
    "(nx - 1) * ny + j - 1 = (nx - 1) * ny + (j - 1)"
    "(nx - 1) * ny + j + 1 = (nx - 1) * ny + (j + 1)" by (simp_all add: algebra_simps)
  have "ny \<le> (nx - 1) * ny" using mult_right_mono[of 1 "nx - 1" ny] nx ny by simp
  then have nlt: "\<not> (nx - 1) * ny + j < ny" using j by linarith
  show "next_field vi vr nx ny ((nx - 1) * ny + j) =
          Some ((5.0 + the (vi ((nx - 2) * ny + j)) + the (vi ((nx - 1) * ny + (j - 1)))
                  + the (vi ((nx - 1) * ny + (j + 1)))) * 0.25)"
    using next_field_cell[of j ny vi vr nx "nx - 1"] j nx
    unfolding row_val_def bottom_val_def e if_not_P[OF nlt] quarter_def by simp
next
  fix i assume i: "1 \<le> i \<and> i < nx - 1"
  have e: "i * ny + 0 + ny = (i + 1) * ny + 0" "i * ny + 0 - ny = (i - 1) * ny + 0"
    "i * ny + 0 + 1 = i * ny + 1" by (simp_all add: algebra_simps)
  have m0: "(i * ny + 0) mod ny = 0" using idx_mod[of 0 ny i] ny by simp
  show "next_field vi vr nx ny (i * ny + 0) =
          Some ((the (vi ((i + 1) * ny + 0)) + the (vi ((i - 1) * ny + 0)) + 15.45
                  + the (vi (i * ny + 1))) * 0.25)"
    using next_field_cell[of 0 ny vi vr nx i] i ny
    unfolding col_val_def left_val_def e if_P[OF m0] quarter_def by simp
next
  fix i assume i: "1 \<le> i \<and> i < nx - 1"
  have e: "i * ny + (ny - 1) + ny = (i + 1) * ny + (ny - 1)"
    "i * ny + (ny - 1) - ny = (i - 1) * ny + (ny - 1)"
    "i * ny + (ny - 1) - 1 = i * ny + (ny - 2)" by (simp_all add: algebra_simps)
  have m1: "(i * ny + (ny - 1)) mod ny \<noteq> 0" using idx_mod[of "ny - 1" ny i] ny by simp
  show "next_field vi vr nx ny (i * ny + (ny - 1)) =
          Some ((the (vi ((i + 1) * ny + (ny - 1))) + the (vi ((i - 1) * ny + (ny - 1)))
                  + the (vi (i * ny + (ny - 2))) - 6.7) * 0.25)"
    using next_field_cell[of "ny - 1" ny vi vr nx i] i ny
    unfolding col_val_def right_val_def e if_not_P[OF m1] quarter_def by simp
qed

lemma next_field_corners:
  assumes ny: "0 < ny"
  shows "next_field vi vr nx ny (0 * ny + 0) = vr (0 * ny + 0)"
    and "next_field vi vr nx ny (0 * ny + (ny - 1)) = vr (0 * ny + (ny - 1))"
    and "next_field vi vr nx ny ((nx - 1) * ny + 0) = vr ((nx - 1) * ny + 0)"
    and "next_field vi vr nx ny ((nx - 1) * ny + (ny - 1)) = vr ((nx - 1) * ny + (ny - 1))"
  using next_field_cell[of 0 ny vi vr nx 0] next_field_cell[of "ny - 1" ny vi vr nx 0]
    next_field_cell[of 0 ny vi vr nx "nx - 1"] next_field_cell[of "ny - 1" ny vi vr nx "nx - 1"]
    ny by simp_all

section \<open>Initialisation and whole runs\<close>

lemma for_loop_writes2:
  fixes s1 s2 :: "'k \<rightharpoonup> real"
  assumes body: "\<And>k t1 t2. lo \<le> k \<Longrightarrow> k < hi \<Longrightarrow> dom t1 = dom s1 \<Longrightarrow> dom t2 = dom s2 \<Longrightarrow>
       body k (t1, t2) = Some (\<lambda>a. if a \<in> W k then Some (w1 a) else t1 a,
                               \<lambda>a. if a \<in> W k then Some (w2 a) else t2 a)"
    and sub: "\<And>k. lo \<le> k \<Longrightarrow> k < hi \<Longrightarrow> W k \<subseteq> dom s1 \<inter> dom s2"
  shows "for_loop lo hi body (s1, s2) =
         Some (\<lambda>a. if a \<in> (\<Union>k\<in>{lo..<hi}. W k) then Some (w1 a) else s1 a,
               \<lambda>a. if a \<in> (\<Union>k\<in>{lo..<hi}. W k) then Some (w2 a) else s2 a)"
proof (cases "lo \<le> hi")
  case False
  then show ?thesis by (simp add: for_loop_empty)
next
  case True
  define I where "I k t \<longleftrightarrow>
     t = (\<lambda>a. if a \<in> (\<Union>k'\<in>{lo..<k}. W k') then Some (w1 a) else s1 a,
          \<lambda>a. if a \<in> (\<Union>k'\<in>{lo..<k}. W k') then Some (w2 a) else s2 a)" for k t
  have base: "I lo (s1, s2)" by (simp add: I_def)
  have step: "\<exists>t'. body k t = Some t' \<and> I (k + 1) t'"
    if k: "lo \<le> k" "k < hi" and inv: "I k t" for k t
  proof -
    let ?U = "\<Union>k'\<in>{lo..<k}. W k'"
    let ?t1 = "\<lambda>a. if a \<in> ?U then Some (w1 a) else s1 a"
    let ?t2 = "\<lambda>a. if a \<in> ?U then Some (w2 a) else s2 a"
    have t: "t = (?t1, ?t2)" using inv unfolding I_def .
    have U: "?U \<subseteq> dom s1 \<inter> dom s2" using sub k by fastforce
    have d1: "dom ?t1 = dom s1" using U by (auto simp: dom_def split: if_splits)
    have d2: "dom ?t2 = dom s2" using U by (auto simp: dom_def split: if_splits)
    have un: "(\<Union>k'\<in>{lo..<k + 1}. W k') = W k \<union> ?U"
    proof -
      have "{lo..<k + 1} = insert k {lo..<k}" using k by auto
      then show ?thesis by simp
    qed
    have e1: "(\<lambda>a. if a \<in> W k then Some (w1 a) else ?t1 a)
            = (\<lambda>a. if a \<in> (\<Union>k'\<in>{lo..<k + 1}. W k') then Some (w1 a) else s1 a)"
      unfolding un by (rule ext) simp
    have e2: "(\<lambda>a. if a \<in> W k then Some (w2 a) else ?t2 a)
            = (\<lambda>a. if a \<in> (\<Union>k'\<in>{lo..<k + 1}. W k') then Some (w2 a) else s2 a)"
      unfolding un by (rule ext) simp
    show ?thesis
      unfolding t body[OF k d1 d2] I_def e1 e2 by simp
  qed
  from for_loop_rule[of I lo "(s1, s2)" hi body, OF base step True]
  show ?thesis unfolding I_def by blast
qed

lemma for_loop_fold:
  assumes body: "\<And>k t. lo \<le> k \<Longrightarrow> k < hi \<Longrightarrow> P t \<Longrightarrow> body k t = Some (g k t) \<and> P (g k t)"
    and P: "P s"
  shows "for_loop lo hi body s = Some (fold g [lo..hi - 1] s) \<and> P (fold g [lo..hi - 1] s)"
proof (cases "lo \<le> hi")
  case False
  then show ?thesis using P by (simp add: for_loop_empty)
next
  case True
  define I where "I k t \<longleftrightarrow> t = fold g [lo..k - 1] s \<and> P t" for k t
  have base: "I lo s" using P by (simp add: I_def)
  have step: "\<exists>t'. body k t = Some t' \<and> I (k + 1) t'"
    if k: "lo \<le> k" "k < hi" and inv: "I k t" for k t
  proof -
    have t: "t = fold g [lo..k - 1] s" and Pt: "P t" using inv unfolding I_def by blast+
    have b: "body k t = Some (g k t)" "P (g k t)" using body[OF k Pt] by blast+
    have "[lo..k + 1 - 1] = [lo..k - 1] @ [k]" using k upto_rec2[of lo k] by simp
    then have "fold g [lo..k + 1 - 1] s = g k t" unfolding t by simp
    then have "I (k + 1) (g k t)" unfolding I_def using b(2) by simp
    then show ?thesis using b(1) by blast
  qed
  from for_loop_rule[of I lo s hi body, OF base step True]
  show ?thesis unfolding I_def by blast
qed

lemma cells_all:
  assumes "0 \<le> nx" "0 \<le> ny"
  shows "(\<Union>i\<in>{0..<nx}. \<Union>j\<in>{0..<ny}. {i * ny + j}) = {0..<nx * (ny::int)}"
proof (rule set_eqI)
  fix a
  show "a \<in> (\<Union>i\<in>{0..<nx}. \<Union>j\<in>{0..<ny}. {i * ny + j}) \<longleftrightarrow> a \<in> {0..<nx * ny}"
  proof
    assume "a \<in> (\<Union>i\<in>{0..<nx}. \<Union>j\<in>{0..<ny}. {i * ny + j})"
    then obtain i j where "0 \<le> i" "i < nx" "0 \<le> j" "j < ny" "a = i * ny + j" by auto
    then show "a \<in> {0..<nx * ny}" using idx_range[of i nx j ny] by simp
  next
    assume a: "a \<in> {0..<nx * ny}"
    then have ny: "0 < ny" using assms by (cases "ny = 0") auto
    have m: "0 \<le> a mod ny" "a mod ny < ny" using ny by simp_all
    have d0: "0 \<le> a div ny" using a ny by (simp add: pos_imp_zdiv_nonneg_iff)
    have "a div ny * ny \<le> a" using m div_mult_mod_eq[of a ny] by linarith
    then have "a div ny * ny < nx * ny" using a by simp
    then have d1: "a div ny < nx" using ny by (simp add: mult_less_cancel_right)
    have "a = a div ny * ny + a mod ny" by simp
    then have "a \<in> {a div ny * ny + a mod ny}" by simp
    moreover have "a div ny \<in> {0..<nx}" "a mod ny \<in> {0..<ny}" using d0 d1 m by simp_all
    ultimately show "a \<in> (\<Union>i\<in>{0..<nx}. \<Union>j\<in>{0..<ny}. {i * ny + j})" by blast
  qed
qed

lemma init_row_closed:
  fixes f :: "int \<Rightarrow> real" and g :: "int \<Rightarrow> int \<Rightarrow> real"
  assumes vi: "allocated (nx * ny) vi" and vr: "allocated (nx * ny) vr"
    and i: "0 \<le> i" "i < nx"
    and f: "\<And>j. 0 \<le> j \<Longrightarrow> j < ny \<Longrightarrow> g i j = f (i * ny + j)"
  shows "for_loop 0 ny (\<lambda>j (vi, vr). do {
            vi' \<leftarrow> store vi (i * ny + j) (g i j);
            vr' \<leftarrow> store vr (i * ny + j) 0;
            Some (vi', vr')
          }) (vi, vr)
      = Some (\<lambda>a. if a \<in> (\<Union>j\<in>{0..<ny}. {i * ny + j}) then Some (f a) else vi a,
              \<lambda>a. if a \<in> (\<Union>j\<in>{0..<ny}. {i * ny + j}) then Some 0 else vr a)"
proof (rule for_loop_writes2[where W = "\<lambda>j. {i * ny + j}" and ?w1.0 = f and ?w2.0 = "\<lambda>a. 0"])
  fix j and t1 t2 :: buffer
  assume j: "0 \<le> j" "j < ny" and d: "dom t1 = dom vi" "dom t2 = dom vr"
  have t1: "allocated (nx * ny) t1" and t2: "allocated (nx * ny) t2"
    using vi vr d by (simp_all add: allocated_def)
  have w1: "store t1 (i * ny + j) v = Some (t1(i * ny + j \<mapsto> v))" for v
    using allocated_store[OF t1 i j] by simp
  have w2: "store t2 (i * ny + j) v = Some (t2(i * ny + j \<mapsto> v))" for v
    using allocated_store[OF t2 i j] by simp
  show "(case (t1, t2) of (vi, vr) \<Rightarrow> do {
            vi' \<leftarrow> store vi (i * ny + j) (g i j);
            vr' \<leftarrow> store vr (i * ny + j) 0;
            Some (vi', vr')
          }) = Some (\<lambda>a. if a \<in> {i * ny + j} then Some (f a) else t1 a,
                     \<lambda>a. if a \<in> {i * ny + j} then Some 0 else t2 a)"
    by (auto simp: w1 w2 f[OF j] fun_eq_iff)
next
  fix j assume j: "0 \<le> j" "j < ny"
  show "{i * ny + j} \<subseteq> dom vi \<inter> dom vr"
    using idx_range[OF i j] vi vr by (simp add: allocated_def)
qed

lemma init_closed:
  fixes f :: "int \<Rightarrow> real" and g :: "int \<Rightarrow> int \<Rightarrow> real"
  assumes n: "0 \<le> nx" "0 \<le> ny"
    and vi: "allocated (nx * ny) vi" and vr: "allocated (nx * ny) vr"
    and f: "\<And>i j. 0 \<le> i \<Longrightarrow> i < nx \<Longrightarrow> 0 \<le> j \<Longrightarrow> j < ny \<Longrightarrow> g i j = f (i * ny + j)"
  shows "for_loop 0 nx (\<lambda>i. for_loop 0 ny (\<lambda>j (vi, vr). do {
            vi' \<leftarrow> store vi (i * ny + j) (g i j);
            vr' \<leftarrow> store vr (i * ny + j) 0;
            Some (vi', vr')
          })) (vi, vr)
      = Some (\<lambda>a. if a \<in> {0..<nx * ny} then Some (f a) else vi a,
              \<lambda>a. if a \<in> {0..<nx * ny} then Some 0 else vr a)"
proof -
  have "for_loop 0 nx (\<lambda>i. for_loop 0 ny (\<lambda>j (vi, vr). do {
            vi' \<leftarrow> store vi (i * ny + j) (g i j);
            vr' \<leftarrow> store vr (i * ny + j) 0;
            Some (vi', vr')
          })) (vi, vr)
      = Some (\<lambda>a. if a \<in> (\<Union>i\<in>{0..<nx}. \<Union>j\<in>{0..<ny}. {i * ny + j}) then Some (f a) else vi a,
              \<lambda>a. if a \<in> (\<Union>i\<in>{0..<nx}. \<Union>j\<in>{0..<ny}. {i * ny + j}) then Some 0 else vr a)"
  proof (rule for_loop_writes2[where W = "\<lambda>i. \<Union>j\<in>{0..<ny}. {i * ny + j}"
        and ?w1.0 = f and ?w2.0 = "\<lambda>a. 0"])
    fix i and t1 t2 :: buffer
    assume i: "0 \<le> i" "i < nx" and d: "dom t1 = dom vi" "dom t2 = dom vr"
    have t1: "allocated (nx * ny) t1" and t2: "allocated (nx * ny) t2"
      using vi vr d by (simp_all add: allocated_def)
    show "for_loop 0 ny (\<lambda>j (vi, vr). do {
            vi' \<leftarrow> store vi (i * ny + j) (g i j);
            vr' \<leftarrow> store vr (i * ny + j) 0;
            Some (vi', vr')
          }) (t1, t2)
      = Some (\<lambda>a. if a \<in> (\<Union>j\<in>{0..<ny}. {i * ny + j}) then Some (f a) else t1 a,
              \<lambda>a. if a \<in> (\<Union>j\<in>{0..<ny}. {i * ny + j}) then Some 0 else t2 a)"
      by (rule init_row_closed[where g = g and f = f, OF t1 t2 i]) (rule f[OF i])
  next
    fix i assume i: "0 \<le> i" "i < nx"
    have "i * ny + j \<in> dom vi \<inter> dom vr" if "0 \<le> j" "j < ny" for j
      using idx_range[OF i that] vi vr by (simp add: allocated_def)
    then show "(\<Union>j\<in>{0..<ny}. {i * ny + j}) \<subseteq> dom vi \<inter> dom vr" by fastforce
  qed
  then show ?thesis unfolding cells_all[OF n] .
qed

section \<open>The serial baseline, loop by loop\<close>

lemma allocated2_read:
  "allocated2 nx ny g \<Longrightarrow> 0 \<le> i \<Longrightarrow> i < nx \<Longrightarrow> 0 \<le> j \<Longrightarrow> j < ny \<Longrightarrow> \<exists>v. g (i, j) = Some v"
  by (auto simp: allocated2_def dom_def set_eq_iff)

lemma allocated2_store:
  "allocated2 nx ny g \<Longrightarrow> 0 \<le> i \<Longrightarrow> i < nx \<Longrightarrow> 0 \<le> j \<Longrightarrow> j < ny \<Longrightarrow>
   store2 g i j v = Some (g((i, j) \<mapsto> v))"
  by (auto simp: allocated2_def store2_def)

lemma upd_as_if: "g(k \<mapsto> v) = (\<lambda>p. if p \<in> {k} then Some v else g p)"
  by (auto simp: fun_eq_iff)

lemma update_serial_cell:
  assumes vi: "allocated2 nx ny vi" and t: "allocated2 nx ny t"
    and i: "0 \<le> i" "i < nx" and j: "0 \<le> j" "j < ny"
  shows "(if i > 0 \<and> i < nx - 1 \<and> j > 0 \<and> j < ny - 1 then do {
           a \<leftarrow> vi (i + 1, j);
           b \<leftarrow> vi (i - 1, j);
           c \<leftarrow> vi (i, j - 1);
           d \<leftarrow> vi (i, j + 1);
           store2 t i j ((a + b + c + d) / 4)
         } else if i = 0 \<and> i < nx - 1 \<and> j > 0 \<and> j < ny - 1 then do {
           a \<leftarrow> vi (i + 1, j);
           c \<leftarrow> vi (i, j - 1);
           d \<leftarrow> vi (i, j + 1);
           store2 t i j ((a + 10 + c + d) / 4)
         } else if i > 0 \<and> i = nx - 1 \<and> j > 0 \<and> j < ny - 1 then do {
           b \<leftarrow> vi (i - 1, j);
           c \<leftarrow> vi (i, j - 1);
           d \<leftarrow> vi (i, j + 1);
           store2 t i j ((5 + b + c + d) / 4)
         } else if i > 0 \<and> i < nx - 1 \<and> j = 0 \<and> j < ny - 1 then do {
           a \<leftarrow> vi (i + 1, j);
           b \<leftarrow> vi (i - 1, j);
           d \<leftarrow> vi (i, j + 1);
           store2 t i j ((a + b + 15.45 + d) / 4)
         } else if i > 0 \<and> i < nx - 1 \<and> j > 0 \<and> j = ny - 1 then do {
           a \<leftarrow> vi (i + 1, j);
           b \<leftarrow> vi (i - 1, j);
           c \<leftarrow> vi (i, j - 1);
           store2 t i j ((a + b + c - 6.7) / 4)
         } else Some t)
       = Some (\<lambda>p. if p \<in> (if serial_written nx ny i j then {(i, j)} else {})
                    then Some (serial_val vi nx ny p) else t p)"
proof -
  have w: "store2 t i j v = Some (\<lambda>p. if p \<in> {(i, j)} then Some (serial_val vi nx ny p) else t p)"
    if "v = serial_val vi nx ny (i, j)" for v
    using allocated2_store[OF t i j, of v] that by (auto simp: fun_eq_iff)
  consider (c1) "i > 0 \<and> i < nx - 1 \<and> j > 0 \<and> j < ny - 1"
    | (c2) "i = 0 \<and> i < nx - 1 \<and> j > 0 \<and> j < ny - 1"
    | (c3) "i > 0 \<and> i = nx - 1 \<and> j > 0 \<and> j < ny - 1"
    | (c4) "i > 0 \<and> i < nx - 1 \<and> j = 0 \<and> j < ny - 1"
    | (c5) "i > 0 \<and> i < nx - 1 \<and> j > 0 \<and> j = ny - 1"
    | (c6) "\<not> serial_written nx ny i j"
    unfolding serial_written_def by blast
  then show ?thesis
  proof cases
    case c1
    obtain a b c d where r: "vi (i + 1, j) = Some a" "vi (i - 1, j) = Some b"
      "vi (i, j - 1) = Some c" "vi (i, j + 1) = Some d"
      using allocated2_read[OF vi, of "i + 1" j] allocated2_read[OF vi, of "i - 1" j]
        allocated2_read[OF vi, of i "j - 1"] allocated2_read[OF vi, of i "j + 1"] c1 by auto
    have v: "serial_val vi nx ny (i, j) = (a + b + c + d) / 4"
      using c1 r by (simp add: serial_val_def)
    show ?thesis using c1 r w[OF v[symmetric]] by (simp add: serial_written_def)
  next
    case c2
    obtain a c d where r: "vi (i + 1, j) = Some a"
      "vi (i, j - 1) = Some c" "vi (i, j + 1) = Some d"
      using allocated2_read[OF vi, of "i + 1" j]
        allocated2_read[OF vi, of i "j - 1"] allocated2_read[OF vi, of i "j + 1"] c2 by auto
    have v: "serial_val vi nx ny (i, j) = (a + 10 + c + d) / 4"
      using c2 r by (simp add: serial_val_def)
    show ?thesis using c2 r w[OF v[symmetric]] by (simp add: serial_written_def)
  next
    case c3
    obtain b c d where r: "vi (i - 1, j) = Some b"
      "vi (i, j - 1) = Some c" "vi (i, j + 1) = Some d"
      using allocated2_read[OF vi, of "i - 1" j]
        allocated2_read[OF vi, of i "j - 1"] allocated2_read[OF vi, of i "j + 1"] c3 by auto
    have v: "serial_val vi nx ny (i, j) = (5 + b + c + d) / 4"
      using c3 r by (simp add: serial_val_def)
    show ?thesis using c3 r w[OF v[symmetric]] by (simp add: serial_written_def)
  next
    case c4
    obtain a b d where r: "vi (i + 1, j) = Some a" "vi (i - 1, j) = Some b"
      "vi (i, j + 1) = Some d"
      using allocated2_read[OF vi, of "i + 1" j] allocated2_read[OF vi, of "i - 1" j]
        allocated2_read[OF vi, of i "j + 1"] c4 by auto
    have v: "serial_val vi nx ny (i, j) = (a + b + 15.45 + d) / 4"
      using c4 r by (simp add: serial_val_def)
    show ?thesis using c4 r w[OF v[symmetric]] by (simp add: serial_written_def)
  next
    case c5
    obtain a b c where r: "vi (i + 1, j) = Some a" "vi (i - 1, j) = Some b"
      "vi (i, j - 1) = Some c"
      using allocated2_read[OF vi, of "i + 1" j] allocated2_read[OF vi, of "i - 1" j]
        allocated2_read[OF vi, of i "j - 1"] c5 by auto
    have v: "serial_val vi nx ny (i, j) = (a + b + c - 6.7) / 4"
      using c5 r by (simp add: serial_val_def)
    show ?thesis using c5 r w[OF v[symmetric]] by (simp add: serial_written_def)
  next
    case c6
    then show ?thesis by (auto simp: serial_written_def)
  qed
qed

lemma update_serial_closed:
  assumes vi: "allocated2 nx ny vi" and vr: "allocated2 nx ny vr"
  shows "update_serial vi nx ny vr = Some (next_grid vi vr nx ny)"
  unfolding update_serial_def next_grid_def
proof (rule for_loop_writes[where
      W = "\<lambda>i. \<Union>j\<in>{0..<ny}. (if serial_written nx ny i j then {(i, j)} else {})"
      and w = "serial_val vi nx ny"])
  fix i and t :: grid
  assume i: "0 \<le> i" "i < nx" and d: "dom t = dom vr"
  have t: "allocated2 nx ny t" using vr d by (simp add: allocated2_def)
  show "for_loop 0 ny (\<lambda>j vr.
         if i > 0 \<and> i < nx - 1 \<and> j > 0 \<and> j < ny - 1 then do {
           a \<leftarrow> vi (i + 1, j);
           b \<leftarrow> vi (i - 1, j);
           c \<leftarrow> vi (i, j - 1);
           d \<leftarrow> vi (i, j + 1);
           store2 vr i j ((a + b + c + d) / 4)
         } else if i = 0 \<and> i < nx - 1 \<and> j > 0 \<and> j < ny - 1 then do {
           a \<leftarrow> vi (i + 1, j);
           c \<leftarrow> vi (i, j - 1);
           d \<leftarrow> vi (i, j + 1);
           store2 vr i j ((a + 10 + c + d) / 4)
         } else if i > 0 \<and> i = nx - 1 \<and> j > 0 \<and> j < ny - 1 then do {
           b \<leftarrow> vi (i - 1, j);
           c \<leftarrow> vi (i, j - 1);
           d \<leftarrow> vi (i, j + 1);
           store2 vr i j ((5 + b + c + d) / 4)
         } else if i > 0 \<and> i < nx - 1 \<and> j = 0 \<and> j < ny - 1 then do {
           a \<leftarrow> vi (i + 1, j);
           b \<leftarrow> vi (i - 1, j);
           d \<leftarrow> vi (i, j + 1);
           store2 vr i j ((a + b + 15.45 + d) / 4)
         } else if i > 0 \<and> i < nx - 1 \<and> j > 0 \<and> j = ny - 1 then do {
           a \<leftarrow> vi (i + 1, j);
           b \<leftarrow> vi (i - 1, j);
           c \<leftarrow> vi (i, j - 1);
           store2 vr i j ((a + b + c - 6.7) / 4)
         } else Some vr) t
     = Some (\<lambda>p. if p \<in> (\<Union>j\<in>{0..<ny}. (if serial_written nx ny i j then {(i, j)} else {}))
                  then Some (serial_val vi nx ny p) else t p)"
  proof (rule for_loop_writes[where
        W = "\<lambda>j. (if serial_written nx ny i j then {(i, j)} else {})"
        and w = "serial_val vi nx ny"])
    fix j and u :: grid
    assume j: "0 \<le> j" "j < ny" and d': "dom u = dom t"
    have u: "allocated2 nx ny u" using t d' by (simp add: allocated2_def)
    show "(if i > 0 \<and> i < nx - 1 \<and> j > 0 \<and> j < ny - 1 then do {
           a \<leftarrow> vi (i + 1, j);
           b \<leftarrow> vi (i - 1, j);
           c \<leftarrow> vi (i, j - 1);
           d \<leftarrow> vi (i, j + 1);
           store2 u i j ((a + b + c + d) / 4)
         } else if i = 0 \<and> i < nx - 1 \<and> j > 0 \<and> j < ny - 1 then do {
           a \<leftarrow> vi (i + 1, j);
           c \<leftarrow> vi (i, j - 1);
           d \<leftarrow> vi (i, j + 1);
           store2 u i j ((a + 10 + c + d) / 4)
         } else if i > 0 \<and> i = nx - 1 \<and> j > 0 \<and> j < ny - 1 then do {
           b \<leftarrow> vi (i - 1, j);
           c \<leftarrow> vi (i, j - 1);
           d \<leftarrow> vi (i, j + 1);
           store2 u i j ((5 + b + c + d) / 4)
         } else if i > 0 \<and> i < nx - 1 \<and> j = 0 \<and> j < ny - 1 then do {
           a \<leftarrow> vi (i + 1, j);
           b \<leftarrow> vi (i - 1, j);
           d \<leftarrow> vi (i, j + 1);
           store2 u i j ((a + b + 15.45 + d) / 4)
         } else if i > 0 \<and> i < nx - 1 \<and> j > 0 \<and> j = ny - 1 then do {
           a \<leftarrow> vi (i + 1, j);
           b \<leftarrow> vi (i - 1, j);
           c \<leftarrow> vi (i, j - 1);
           store2 u i j ((a + b + c - 6.7) / 4)
         } else Some u)
       = Some (\<lambda>p. if p \<in> (if serial_written nx ny i j then {(i, j)} else {})
                    then Some (serial_val vi nx ny p) else u p)"
      by (rule update_serial_cell[OF vi u i j])
  next
    fix j assume "0 \<le> j" "j < ny"
    then show "(if serial_written nx ny i j then {(i, j)} else {}) \<subseteq> dom t"
      using t i by (auto simp: allocated2_def)
  qed
next
  fix i assume "0 \<le> i" "i < nx"
  then show "(\<Union>j\<in>{0..<ny}. (if serial_written nx ny i j then {(i, j)} else {})) \<subseteq> dom vr"
    using vr by (auto simp: allocated2_def split: if_splits)
qed

lemma next_grid_cell:
  "next_grid vi vr nx ny (i, j) =
     (if 0 \<le> i \<and> i < nx \<and> 0 \<le> j \<and> j < ny \<and> serial_written nx ny i j
      then Some (serial_val vi nx ny (i, j)) else vr (i, j))"
  by (auto simp: next_grid_def split: if_splits)

lemma next_grid_allocated:
  "allocated2 nx ny vr \<Longrightarrow> allocated2 nx ny (next_grid vi vr nx ny)"
  by (auto simp: allocated2_def next_grid_def dom_def split: if_splits)

lemma diagnostic_serial_closed:
  assumes vi: "allocated2 nx ny vi" and vr: "allocated2 nx ny vr"
  shows "diagnostic_serial opens vi vr nx ny t out
           = Some (out @ diag_records2 opens vi vr nx ny t)"
  unfolding diagnostic_serial_def diag_records2_def
proof (rule for_loop_append)
  fix i out assume i: "0 \<le> i" "i < nx"
  show "for_loop 0 ny (\<lambda>j out. do {
         r \<leftarrow> vr (i, j);
         c \<leftarrow> vi (i, j);
         Some (if \<bar>\<bar>r\<bar> - \<bar>c\<bar>\<bar> < 0.01
               then (if opens then out @ [(t, i, j, \<bar>c\<bar>, \<bar>r\<bar>)] else out)
               else out)
       }) out
     = Some (out @ concat (map (\<lambda>j. if \<bar>\<bar>the (vr (i, j))\<bar> - \<bar>the (vi (i, j))\<bar>\<bar> < 0.01 \<and> opens
                then [(t, i, j, \<bar>the (vi (i, j))\<bar>, \<bar>the (vr (i, j))\<bar>)] else [])
              [0..ny - 1]))"
  proof (rule for_loop_append)
    fix j out assume j: "0 \<le> j" "j < ny"
    obtain r where r: "vr (i, j) = Some r" using allocated2_read[OF vr i j] by auto
    obtain c where c: "vi (i, j) = Some c" using allocated2_read[OF vi i j] by auto
    show "do {
         r \<leftarrow> vr (i, j);
         c \<leftarrow> vi (i, j);
         Some (if \<bar>\<bar>r\<bar> - \<bar>c\<bar>\<bar> < 0.01
               then (if opens then out @ [(t, i, j, \<bar>c\<bar>, \<bar>r\<bar>)] else out)
               else out)
       } = Some (out @ (if \<bar>\<bar>the (vr (i, j))\<bar> - \<bar>the (vi (i, j))\<bar>\<bar> < 0.01 \<and> opens
                then [(t, i, j, \<bar>the (vi (i, j))\<bar>, \<bar>the (vr (i, j))\<bar>)] else []))"
      by (simp add: r c)
  qed
qed

lemma relax_serial_row:
  assumes vr: "allocated2 nx ny vr" and t: "allocated2 nx ny t"
    and i: "0 \<le> i" "i < nx"
    and same: "\<And>j. 0 \<le> j \<Longrightarrow> j < ny \<Longrightarrow> t (i, j) = vi (i, j)"
  shows "for_loop 0 ny (\<lambda>j vi. do {
         a \<leftarrow> vi (i, j);
         b \<leftarrow> vr (i, j);
         store2 vi i j (a / 2 + b / 2)
       }) t = Some (\<lambda>p. if p \<in> (\<Union>j\<in>{0..<ny}. {(i, j)}) then Some (relaxed2 vi vr p) else t p)"
proof (rule for_loop_writes[where W = "\<lambda>j. {(i, j)}" and w = "relaxed2 vi vr"])
  fix j and u :: grid
  assume j: "0 \<le> j" "j < ny" and d: "dom u = dom t"
    and u: "u = (\<lambda>p. if p \<in> (\<Union>j'\<in>{0..<j}. {(i, j')}) then Some (relaxed2 vi vr p) else t p)"
  have "u (i, j) = t (i, j)" by (subst u) simp
  then have uk: "u (i, j) = vi (i, j)" using same[OF j] by simp
  have ua: "allocated2 nx ny u" using t d by (simp add: allocated2_def)
  obtain a where a: "u (i, j) = Some a" using allocated2_read[OF ua i j] by auto
  obtain b where b: "vr (i, j) = Some b" using allocated2_read[OF vr i j] by auto
  have va: "vi (i, j) = Some a" using uk a by simp
  show "do {
         a \<leftarrow> u (i, j);
         b \<leftarrow> vr (i, j);
         store2 u i j (a / 2 + b / 2)
       } = Some (\<lambda>p. if p \<in> {(i, j)} then Some (relaxed2 vi vr p) else u p)"
    using allocated2_store[OF ua i j, of "a / 2 + b / 2"]
    by (auto simp: a b va relaxed2_def fun_eq_iff)
next
  fix j assume "0 \<le> j" "j < ny"
  then show "{(i, j)} \<subseteq> dom t" using t i by (simp add: allocated2_def)
qed

lemma pairs_all: "(\<Union>i\<in>{0..<nx}. \<Union>j\<in>{0..<ny}. {(i, j)}) = {0..<nx::int} \<times> {0..<ny::int}"
  by auto

lemma relax_serial_closed:
  assumes vi: "allocated2 nx ny vi" and vr: "allocated2 nx ny vr"
  shows "relax_serial vr nx ny vi =
     Some (\<lambda>p. if p \<in> {0..<nx} \<times> {0..<ny} then Some (relaxed2 vi vr p) else vi p)"
proof -
  have "relax_serial vr nx ny vi =
     Some (\<lambda>p. if p \<in> (\<Union>i\<in>{0..<nx}. \<Union>j\<in>{0..<ny}. {(i, j)})
                then Some (relaxed2 vi vr p) else vi p)"
    unfolding relax_serial_def
  proof (rule for_loop_writes[where W = "\<lambda>i. \<Union>j\<in>{0..<ny}. {(i, j)}" and w = "relaxed2 vi vr"])
    fix i and t :: grid
    assume i: "0 \<le> i" "i < nx" and d: "dom t = dom vi"
      and t: "t = (\<lambda>p. if p \<in> (\<Union>i'\<in>{0..<i}. \<Union>j\<in>{0..<ny}. {(i', j)})
                       then Some (relaxed2 vi vr p) else vi p)"
    have ta: "allocated2 nx ny t" using vi d by (simp add: allocated2_def)
    have same: "t (i, j) = vi (i, j)" for j by (subst t) simp
    show "for_loop 0 ny (\<lambda>j vi. do {
         a \<leftarrow> vi (i, j);
         b \<leftarrow> vr (i, j);
         store2 vi i j (a / 2 + b / 2)
       }) t = Some (\<lambda>p. if p \<in> (\<Union>j\<in>{0..<ny}. {(i, j)}) then Some (relaxed2 vi vr p) else t p)"
      by (rule relax_serial_row[OF vr ta i same])
  next
    fix i assume "0 \<le> i" "i < nx"
    then show "(\<Union>j\<in>{0..<ny}. {(i, j)}) \<subseteq> dom vi" using vi by (auto simp: allocated2_def)
  qed
  then show ?thesis unfolding pairs_all .
qed

lemma init_serial_closed:
  assumes vi: "allocated2 nx ny vi" and vr: "allocated2 nx ny vr"
  shows "init_serial nx ny (vi, vr) =
     Some (\<lambda>p. if p \<in> {0..<nx} \<times> {0..<ny} then Some (init_val_serial nx p) else vi p,
           \<lambda>p. if p \<in> {0..<nx} \<times> {0..<ny} then Some 0 else vr p)"
proof -
  have "init_serial nx ny (vi, vr) =
     Some (\<lambda>p. if p \<in> (\<Union>i\<in>{0..<nx}. \<Union>j\<in>{0..<ny}. {(i, j)})
                then Some (init_val_serial nx p) else vi p,
           \<lambda>p. if p \<in> (\<Union>i\<in>{0..<nx}. \<Union>j\<in>{0..<ny}. {(i, j)}) then Some 0 else vr p)"
    unfolding init_serial_def
  proof (rule for_loop_writes2[where W = "\<lambda>i. \<Union>j\<in>{0..<ny}. {(i, j)}"
        and ?w1.0 = "init_val_serial nx" and ?w2.0 = "\<lambda>p. 0"])
    fix i and t1 t2 :: grid
    assume i: "0 \<le> i" "i < nx" and d: "dom t1 = dom vi" "dom t2 = dom vr"
    have ta: "allocated2 nx ny t1" "allocated2 nx ny t2"
      using vi vr d by (simp_all add: allocated2_def)
    show "for_loop 0 ny (\<lambda>j (vi, vr). do {
         vi' \<leftarrow> store2 vi i j
                  (real_of_int (int_mul i i) * real_of_int j
                     * sin (pi_c / real_of_int nx * real_of_int i));
         vr' \<leftarrow> store2 vr i j 0;
         Some (vi', vr')
       }) (t1, t2)
      = Some (\<lambda>p. if p \<in> (\<Union>j\<in>{0..<ny}. {(i, j)}) then Some (init_val_serial nx p) else t1 p,
              \<lambda>p. if p \<in> (\<Union>j\<in>{0..<ny}. {(i, j)}) then Some 0 else t2 p)"
    proof (rule for_loop_writes2[where W = "\<lambda>j. {(i, j)}"
          and ?w1.0 = "init_val_serial nx" and ?w2.0 = "\<lambda>p. 0"])
      fix j and u1 u2 :: grid
      assume j: "0 \<le> j" "j < ny" and d': "dom u1 = dom t1" "dom u2 = dom t2"
      have ua: "allocated2 nx ny u1" "allocated2 nx ny u2"
        using ta d' by (simp_all add: allocated2_def)
      show "(case (u1, u2) of (vi, vr) \<Rightarrow> do {
         vi' \<leftarrow> store2 vi i j
                  (real_of_int (int_mul i i) * real_of_int j
                     * sin (pi_c / real_of_int nx * real_of_int i));
         vr' \<leftarrow> store2 vr i j 0;
         Some (vi', vr')
       }) = Some (\<lambda>p. if p \<in> {(i, j)} then Some (init_val_serial nx p) else u1 p,
                  \<lambda>p. if p \<in> {(i, j)} then Some 0 else u2 p)"
        using allocated2_store[OF ua(1) i j] allocated2_store[OF ua(2) i j]
        by (auto simp: init_val_serial_def fun_eq_iff)
    next
      fix j assume "0 \<le> j" "j < ny"
      then show "{(i, j)} \<subseteq> dom t1 \<inter> dom t2" using ta i by (simp add: allocated2_def)
    qed
  next
    fix i assume "0 \<le> i" "i < nx"
    then show "(\<Union>j\<in>{0..<ny}. {(i, j)}) \<subseteq> dom vi \<inter> dom vr"
      using vi vr by (auto simp: allocated2_def)
  qed
  then show ?thesis unfolding pairs_all .
qed

lemma step_serial_closed:
  assumes vi: "allocated2 nx ny (sim_vi s)" and vr: "allocated2 nx ny (sim_vr s)"
  shows "step_serial opens nx ny t s = Some (step_closed2 opens nx ny t s)"
  using update_serial_closed[OF vi vr]
    diagnostic_serial_closed[OF vi next_grid_allocated[OF vr]]
    relax_serial_closed[OF vi next_grid_allocated[OF vr]]
  by (simp add: step_serial_def step_closed2_def Let_def)

lemma step_closed2_allocated:
  assumes "allocated2 nx ny (sim_vi s)" "allocated2 nx ny (sim_vr s)"
  shows "allocated2 nx ny (sim_vi (step_closed2 opens nx ny t s))"
    and "allocated2 nx ny (sim_vr (step_closed2 opens nx ny t s))"
  using assms next_grid_allocated[OF assms(2), of "sim_vi s"]
  by (auto simp: step_closed2_def Let_def allocated2_def dom_def split: if_splits)

lemma new_array_closed:
  "0 \<le> n \<Longrightarrow> n \<le> 2147483647 \<Longrightarrow> new_array n = Some (zeros n)"
  by (simp add: new_array_def zeros_def)

lemma new_grid_closed: "0 \<le> nx \<Longrightarrow> 0 \<le> ny \<Longrightarrow> new_grid nx ny = Some (zeros2 nx ny)"
  by (simp add: new_grid_def zeros2_def)

lemma allocated2_zeros2: "allocated2 nx ny (zeros2 nx ny)"
  by (auto simp: allocated2_def zeros2_def dom_def split: if_splits)

lemma init_optimized_closed:
  assumes n: "0 \<le> nx" "0 \<le> ny"
  shows "init_optimized nx ny (zeros (nx * ny), zeros (nx * ny)) =
     Some (sim_vi (initial (init_val_optimized nx ny) nx ny), zeros (nx * ny))"
proof -
  have "init_optimized nx ny (zeros (nx * ny), zeros (nx * ny)) =
      Some (\<lambda>a. if a \<in> {0..<nx * ny} then Some (init_val_optimized nx ny a) else zeros (nx * ny) a,
            \<lambda>a. if a \<in> {0..<nx * ny} then Some 0 else zeros (nx * ny) a)"
    unfolding init_optimized_def Let_def
    by (rule init_closed[where f = "init_val_optimized nx ny", OF n allocated_zeros allocated_zeros])
      (simp add: init_val_optimized_def idx_div idx_mod)
  moreover have "(\<lambda>a. if a \<in> {0..<nx * ny} then Some (init_val_optimized nx ny a)
                      else zeros (nx * ny) a)
      = sim_vi (initial (init_val_optimized nx ny) nx ny)"
    by (auto simp: initial_def zeros_def fun_eq_iff)
  moreover have "(\<lambda>a. if a \<in> {0..<nx * ny} then Some 0 else zeros (nx * ny) a) = zeros (nx * ny)"
    by (auto simp: zeros_def fun_eq_iff)
  ultimately show ?thesis by simp
qed

lemma init_parallel_closed:
  assumes n: "0 \<le> nx" "0 \<le> ny"
  shows "init_parallel nx ny (zeros (nx * ny), zeros (nx * ny)) =
     Some (sim_vi (initial (init_val_parallel nx ny) nx ny), zeros (nx * ny))"
proof -
  have "init_parallel nx ny (zeros (nx * ny), zeros (nx * ny)) =
      Some (\<lambda>a. if a \<in> {0..<nx * ny} then Some (init_val_parallel nx ny a) else zeros (nx * ny) a,
            \<lambda>a. if a \<in> {0..<nx * ny} then Some 0 else zeros (nx * ny) a)"
    unfolding init_parallel_def Let_def
    using init_closed[where f = "init_val_parallel nx ny"
        and g = "\<lambda>i j. 1.0 * real_of_int i * real_of_int i * real_of_int j
                   * sin (pi_c / real_of_int nx * real_of_int i)",
        OF n allocated_zeros allocated_zeros]
    by (simp add: init_val_parallel_def idx_div idx_mod)
  moreover have "(\<lambda>a. if a \<in> {0..<nx * ny} then Some (init_val_parallel nx ny a)
                      else zeros (nx * ny) a)
      = sim_vi (initial (init_val_parallel nx ny) nx ny)"
    by (auto simp: initial_def zeros_def fun_eq_iff)
  moreover have "(\<lambda>a. if a \<in> {0..<nx * ny} then Some 0 else zeros (nx * ny) a) = zeros (nx * ny)"
    by (auto simp: zeros_def fun_eq_iff)
  ultimately show ?thesis by simp
qed

lemma initial_allocated:
  "allocated (nx * ny) (sim_vi (initial f nx ny))" "allocated (nx * ny) (sim_vr (initial f nx ny))"
  using allocated_zeros[of "nx * ny"]
  by (auto simp: initial_def allocated_def dom_def split: if_splits)

lemma initial_record:
  "\<lparr>sim_vi = sim_vi (initial f nx ny), sim_vr = zeros (nx * ny), fout = [], cout = []\<rparr>
     = initial f nx ny"
  by (simp add: initial_def)

lemma steps_optimized_closed:
  assumes n: "2 \<le> nx" "2 \<le> ny"
  shows "for_loop 0 nt (step_optimized nx ny) (initial f nx ny) = Some (run_state f nx ny nt)"
proof -
  define P where "P s \<longleftrightarrow> allocated (nx * ny) (sim_vi s) \<and> allocated (nx * ny) (sim_vr s)"
    for s :: "int sim"
  have "for_loop 0 nt (step_optimized nx ny) (initial f nx ny)
        = Some (fold (step_closed nx ny) [0..nt - 1] (initial f nx ny))
      \<and> P (fold (step_closed nx ny) [0..nt - 1] (initial f nx ny))"
  proof (rule for_loop_fold)
    fix t s assume "P s"
    then show "step_optimized nx ny t s = Some (step_closed nx ny t s) \<and> P (step_closed nx ny t s)"
      using step_optimized_closed[OF n, of s t] step_closed_allocated[OF n, of s t]
      by (simp add: P_def)
  next
    show "P (initial f nx ny)" using initial_allocated[of nx ny f] by (simp add: P_def)
  qed
  then show ?thesis by (simp add: run_state_def)
qed

lemma steps_parallel_closed:
  assumes n: "2 \<le> nx" "2 \<le> ny"
  shows "for_loop 0 nt (step_parallel hw nx ny) (initial f nx ny) = Some (run_state f nx ny nt)"
proof -
  define P where "P s \<longleftrightarrow> allocated (nx * ny) (sim_vi s) \<and> allocated (nx * ny) (sim_vr s)"
    for s :: "int sim"
  have "for_loop 0 nt (step_parallel hw nx ny) (initial f nx ny)
        = Some (fold (step_closed nx ny) [0..nt - 1] (initial f nx ny))
      \<and> P (fold (step_closed nx ny) [0..nt - 1] (initial f nx ny))"
  proof (rule for_loop_fold)
    fix t s assume "P s"
    then show "step_parallel hw nx ny t s = Some (step_closed nx ny t s) \<and> P (step_closed nx ny t s)"
      using step_parallel_closed[OF n, of s hw t] step_closed_allocated[OF n, of s t]
      by (simp add: P_def)
  next
    show "P (initial f nx ny)" using initial_allocated[of nx ny f] by (simp add: P_def)
  qed
  then show ?thesis by (simp add: run_state_def)
qed

lemma run_optimized_closed:
  assumes n: "2 \<le> nx" "2 \<le> ny" "nx * ny \<le> 2147483647"
  shows "run_optimized opens nx ny nt =
     Some (if opens then (0, run_state (init_val_optimized nx ny) nx ny nt)
           else (1, initial (init_val_optimized nx ny) nx ny))"
proof -
  have p: "0 \<le> nx" "0 \<le> ny" "0 \<le> nx * ny" using n by simp_all
  show ?thesis
    unfolding run_optimized_def
    by (simp add: new_array_closed[OF p(3) n(3)] init_optimized_closed[OF p(1,2)]
        initial_record steps_optimized_closed[OF n(1,2)])
qed

lemma run_parallel_closed:
  assumes n: "2 \<le> nx" "2 \<le> ny" "nx * ny \<le> 2147483647"
  shows "run_parallel hw opens nx ny nt =
     Some (if opens then (0, run_state (init_val_parallel nx ny) nx ny nt)
           else (1, initial (init_val_parallel nx ny) nx ny))"
proof -
  have p: "0 \<le> nx" "0 \<le> ny" "0 \<le> nx * ny" using n by simp_all
  show ?thesis
    unfolding run_parallel_def
    by (simp add: new_array_closed[OF p(3) n(3)] init_parallel_closed[OF p(1,2)]
        initial_record steps_parallel_closed[OF n(1,2)])
qed

lemma initial2_allocated:
  "allocated2 nx ny (sim_vi (initial2 nx ny))" "allocated2 nx ny (sim_vr (initial2 nx ny))"
  using allocated2_zeros2[of nx ny]
  by (auto simp: initial2_def allocated2_def dom_def split: if_splits)

lemma run_serial_closed:
  assumes n: "0 \<le> nx" "0 \<le> ny"
  shows "run_serial opens nx ny nt = Some (0, run_state2 opens nx ny nt)"
proof -
  define P where "P s \<longleftrightarrow> allocated2 nx ny (sim_vi s) \<and> allocated2 nx ny (sim_vr s)"
    for s :: "(int \<times> int) sim"
  have i: "init_serial nx ny (zeros2 nx ny, zeros2 nx ny)
      = Some (sim_vi (initial2 nx ny), sim_vr (initial2 nx ny))"
    using init_serial_closed[OF allocated2_zeros2 allocated2_zeros2, of nx ny]
    by (auto simp: initial2_def zeros2_def fun_eq_iff)
  have r: "\<lparr>sim_vi = sim_vi (initial2 nx ny), sim_vr = sim_vr (initial2 nx ny),
            fout = [], cout = []\<rparr> = initial2 nx ny"
    by (simp add: initial2_def)
  have "for_loop 0 nt (step_serial opens nx ny) (initial2 nx ny)
        = Some (fold (step_closed2 opens nx ny) [0..nt - 1] (initial2 nx ny))
      \<and> P (fold (step_closed2 opens nx ny) [0..nt - 1] (initial2 nx ny))"
  proof (rule for_loop_fold)
    fix t s assume "P s"
    then show "step_serial opens nx ny t s = Some (step_closed2 opens nx ny t s)
        \<and> P (step_closed2 opens nx ny t s)"
      using step_serial_closed[of nx ny s opens t] step_closed2_allocated[of nx ny s opens t]
      by (simp add: P_def)
  next
    show "P (initial2 nx ny)" using initial2_allocated[of nx ny] by (simp add: P_def)
  qed
  then show ?thesis
    unfolding run_serial_def
    by (simp add: new_grid_closed[OF n] i r run_state2_def)
qed

lemma fold_step_cout: "cout (fold (step_closed nx ny) ts s) = cout s @ ts"
  by (induction ts arbitrary: s) (simp_all add: step_closed_def Let_def)

lemma fold_step2_cout: "cout (fold (step_closed2 opens nx ny) ts s) = cout s @ ts"
  by (induction ts arbitrary: s) (simp_all add: step_closed2_def Let_def)

lemma run_state_cout: "cout (run_state f nx ny nt) = [0..nt - 1]"
  by (simp add: run_state_def fold_step_cout initial_def)

lemma run_state2_cout: "cout (run_state2 opens nx ny nt) = [0..nt - 1]"
  by (simp add: run_state2_def fold_step2_cout initial2_def)

lemma diag_records_set:
  "set (diag_records vi vr nx ny t) =
     {(t, i, j, \<bar>the (vi (i * ny + j))\<bar>, \<bar>the (vr (i * ny + j))\<bar>) | i j.
        0 \<le> i \<and> i < nx \<and> 0 \<le> j \<and> j < ny
        \<and> \<bar>\<bar>the (vr (i * ny + j))\<bar> - \<bar>the (vi (i * ny + j))\<bar>\<bar> < 0.01}"
  unfolding diag_records_def by (auto split: if_splits)

lemma mean_between: "min a b \<le> (a + b) * 0.5 \<and> (a + b) * 0.5 \<le> max a (b::real)"
  by (auto simp: min_def max_def)

section \<open>Corner cells\<close>

lemma step_closed_corners:
  "0 < ny \<Longrightarrow> corners_kept nx ny (sim_vr s) (sim_vr (step_closed nx ny t s))"
  using next_field_corners[of ny "sim_vi s" "sim_vr s" nx]
  by (simp add: corners_kept_def step_closed_def Let_def)

lemma step_closed2_corners:
  "corners_kept2 nx ny (sim_vr s) (sim_vr (step_closed2 opens nx ny t s))"
  by (simp add: corners_kept2_def step_closed2_def Let_def next_grid_cell serial_written_def)

lemma fold_corners:
  "0 < ny \<Longrightarrow> corners_kept nx ny (sim_vr s) (sim_vr (fold (step_closed nx ny) ts s))"
proof (induction ts arbitrary: s)
  case Nil
  then show ?case by (simp add: corners_kept_def)
next
  case (Cons t ts)
  show ?case
    using Cons.IH[OF Cons.prems, of "step_closed nx ny t s"]
      step_closed_corners[OF Cons.prems, of nx s t]
    by (simp add: corners_kept_def)
qed

lemma fold_corners2:
  "corners_kept2 nx ny (sim_vr s) (sim_vr (fold (step_closed2 opens nx ny) ts s))"
proof (induction ts arbitrary: s)
  case Nil
  then show ?case by (simp add: corners_kept2_def)
next
  case (Cons t ts)
  show ?case
    using Cons.IH[of "step_closed2 opens nx ny t s"] step_closed2_corners[of nx ny s opens t]
    by (simp add: corners_kept2_def)
qed

lemma zeros_corners:
  assumes "0 < nx" "0 < ny"
  shows "corners_zero nx ny (zeros (nx * ny))"
  using idx_range[of 0 nx 0 ny] idx_range[of 0 nx "ny - 1" ny]
    idx_range[of "nx - 1" nx 0 ny] idx_range[of "nx - 1" nx "ny - 1" ny] assms
  by (simp add: corners_zero_def zeros_def)

lemma run_state_corners:
  assumes "0 < nx" "0 < ny"
  shows "corners_zero nx ny (sim_vr (run_state f nx ny nt))"
  using fold_corners[OF assms(2), of nx "initial f nx ny" "[0..nt - 1]"] zeros_corners[OF assms]
  by (simp add: run_state_def corners_kept_def corners_zero_def initial_def)

lemma run_state2_corners:
  assumes "0 < nx" "0 < ny"
  shows "corners_zero2 nx ny (sim_vr (run_state2 opens nx ny nt))"
  using fold_corners2[of nx ny "initial2 nx ny" opens "[0..nt - 1]"] assms
  by (simp add: run_state2_def corners_kept2_def corners_zero2_def initial2_def zeros2_def)

lemma sin_120: "sin (pi * 2 / 3) = sqrt 3 / 2"
proof -
  have "pi * 2 / 3 = pi - pi / 3" by simp
  then show ?thesis by (simp only: sin_pi_minus sin_60)
qed

lemma pi_c_pi: "pi_c = pi"
  by (simp add: pi_c_def arctan_one)

section \<open>Configurations and the output file\<close>

lemma run_optimized_nosteps:
  assumes n: "0 \<le> nx" "0 \<le> ny" "nx * ny \<le> 2147483647" and nt: "nt \<le> 0"
  shows "run_optimized True nx ny nt = Some (0, initial (init_val_optimized nx ny) nx ny)"
proof -
  have p: "0 \<le> nx * ny" using n by simp
  show ?thesis
    unfolding run_optimized_def
    by (simp add: new_array_closed[OF p n(3)] init_optimized_closed[OF n(1,2)]
        initial_record for_loop_empty[OF nt])
qed

lemma run_parallel_nosteps:
  assumes n: "0 \<le> nx" "0 \<le> ny" "nx * ny \<le> 2147483647" and nt: "nt \<le> 0"
  shows "run_parallel hw True nx ny nt = Some (0, initial (init_val_parallel nx ny) nx ny)"
proof -
  have p: "0 \<le> nx * ny" using n by simp
  show ?thesis
    unfolding run_parallel_def
    by (simp add: new_array_closed[OF p n(3)] init_parallel_closed[OF n(1,2)]
        initial_record for_loop_empty[OF nt])
qed

text \<open>
  Configurations on which a run has no result.  On the arguments \<open>1 3 1\<close> the first step
  of the two array programs reads \<^verbatim>\<open>current[1 * ny + 1]\<close> for the top boundary row, a
  cell beyond the \<open>nx * ny = 3\<close> allocated ones.  With a negative \<open>nx\<close> no program gets
  its arrays, and with \<open>2 * 2000000000\<close> cells the \<^verbatim>\<open>int\<close> product \<^verbatim>\<open>nx * ny\<close> has
  overflowed.
\<close>

lemma boundary_rows_narrow:
  "boundary_rows (sim_vi (initial f 1 3)) 1 3 vr = None"
proof -
  have o: "sim_vi (initial f 1 3) 4 = None" by (simp add: initial_def)
  show ?thesis
    unfolding boundary_rows_def
    by (subst for_loop_step) (simp_all add: o)
qed

lemma interior_threads_narrow: "interior_threads hw vi 1 ny vr = Some vr"
proof -
  have b: "stencil_update_block vi t 1 ny b e = Some t" for t b e
    unfolding stencil_update_block_def by (rule for_loop_empty) simp
  have "\<exists>s'. for_loop 0 (max 1 hw) (\<lambda>tid vr. stencil_update_block vi vr 1 ny
            (block_begin 1 (max 1 hw) tid) (block_end 1 (max 1 hw) tid)) vr = Some s' \<and> s' = vr"
    by (rule for_loop_rule[where I = "\<lambda>k t. t = vr"]) (simp_all add: b)
  then show ?thesis unfolding interior_threads_def Let_def by simp
qed

lemma narrow_grid_reads_outside:
  "run_optimized True 1 3 1 = None \<and> run_parallel hw True 1 3 1 = None"
proof -
  have n: "(0::int) \<le> 1" "(0::int) \<le> 3" by simp_all
  let ?f = "init_val_optimized 1 3"
  let ?g = "init_val_parallel 1 3"
  have i: "init_optimized 1 3 (zeros 3, zeros 3) = Some (sim_vi (initial ?f 1 3), zeros 3)"
    using init_optimized_closed[OF n] by simp
  have j: "init_parallel 1 3 (zeros 3, zeros 3) = Some (sim_vi (initial ?g 1 3), zeros 3)"
    using init_parallel_closed[OF n] by simp
  have r: "\<lparr>sim_vi = sim_vi (initial f 1 3), sim_vr = zeros 3, fout = [], cout = []\<rparr>
      = initial f 1 3" for f
    using initial_record[of f 1 3] by simp
  have s: "step_optimized 1 3 0 (initial ?f 1 3) = None"
    unfolding step_optimized_def
    by (simp add: Let_def interior_update_def for_loop_empty boundary_rows_narrow)
  have p: "step_parallel hw 1 3 0 (initial ?g 1 3) = None"
    unfolding step_parallel_def
    by (simp add: Let_def interior_threads_narrow boundary_rows_narrow)
  have l: "for_loop 0 1 (step_optimized 1 3) (initial ?f 1 3) = None"
    by (subst for_loop_step) (simp_all add: s)
  have m: "for_loop 0 1 (step_parallel hw 1 3) (initial ?g 1 3) = None"
    by (subst for_loop_step) (simp_all add: p)
  have "run_optimized True 1 3 1 = None"
    unfolding run_optimized_def by (simp add: new_array_closed i r l)
  moreover have "run_parallel hw True 1 3 1 = None"
    unfolding run_parallel_def by (simp add: new_array_closed j r m)
  ultimately show ?thesis by simp
qed

lemma negative_extent_no_allocation:
  "run_optimized True (- 1) 3 0 = None \<and> run_parallel hw True (- 1) 3 0 = None
   \<and> run_serial True (- 1) 3 0 = None"
  by (simp add: run_optimized_def run_parallel_def run_serial_def new_array_def new_grid_def)

lemma oversized_grid_no_allocation:
  "run_optimized True 2 2000000000 1 = None \<and> run_parallel hw True 2 2000000000 1 = None"
  by (simp add: run_optimized_def run_parallel_def new_array_def)

lemma diag_records2_closed: "diag_records2 False vi vr nx ny t = []"
  by (simp add: diag_records2_def)

lemma fold_step2_fout:
  "fout (fold (step_closed2 False nx ny) ts s) = fout s"
  by (induction ts arbitrary: s) (simp_all add: step_closed2_def Let_def diag_records2_closed)

section \<open>The three programs compared\<close>

lemma int_mul_exact:
  assumes "0 \<le> i" "i \<le> 46340"
  shows "int_mul i i = i * i"
proof -
  have "i * i \<le> 46340 * 46340" using assms by (intro mult_mono) simp_all
  then have "i * i < 2 ^ 31" by simp
  moreover have "- (2 ^ 31) \<le> i * i"
  proof -
    have "0 \<le> i * i" using assms by simp
    moreover have "(2::int) ^ 31 = 2147483648" by simp
    ultimately show ?thesis by linarith
  qed
  ultimately have "signed_take_bit 31 (i * i) = i * i"
    by (intro signed_take_bit_int_eq_self) simp_all
  then show ?thesis by (simp add: int_mul_def signed_of_int flip: of_int_mult)
qed

section \<open>The baseline against the array programs\<close>

lemma flatten_cell:
  "0 \<le> i \<Longrightarrow> i < nx \<Longrightarrow> 0 \<le> j \<Longrightarrow> j < ny \<Longrightarrow> flatten nx ny g (i * ny + j) = g (i, j)"
  using idx_range[of i nx j ny] by (simp add: flatten_def idx_div idx_mod)

lemma in_range_cell:
  assumes "0 \<le> a" "a < nx * ny" "0 < (ny::int)"
  shows "0 \<le> a div ny \<and> a div ny < nx \<and> 0 \<le> a mod ny \<and> a mod ny < ny
         \<and> a = a div ny * ny + a mod ny"
proof -
  have m: "0 \<le> a mod ny" "a mod ny < ny" using assms(3) by simp_all
  have d0: "0 \<le> a div ny" using assms by (simp add: pos_imp_zdiv_nonneg_iff)
  have "a div ny * ny \<le> a" using m div_mult_mod_eq[of a ny] by linarith
  then have "a div ny * ny < nx * ny" using assms(2) by linarith
  then have "a div ny < nx" using assms(3) by (simp add: mult_less_cancel_right)
  then show ?thesis using m d0 by simp
qed

lemma flatten_next_cell:
  assumes n: "2 < nx" "2 < ny" and i: "0 \<le> i" "i < nx" and j: "0 \<le> j" "j < ny"
  shows "next_field (flatten nx ny vi) (flatten nx ny vr) nx ny (i * ny + j)
         = next_grid vi vr nx ny (i, j)"
proof -
  let ?F = "flatten nx ny vi"
  let ?N = "next_field ?F (flatten nx ny vr) nx ny"
  note pol = next_field_policy[OF n, of ?F "flatten nx ny vr", unfolded boundary_policy_def]
  have fc: "?F (i' * ny + j') = vi (i', j')" if "0 \<le> i'" "i' < nx" "0 \<le> j'" "j' < ny" for i' j'
    using flatten_cell[OF that] .
  consider (int) "1 \<le> i" "i < nx - 1" "1 \<le> j" "j < ny - 1"
    | (top) "i = 0" "1 \<le> j" "j < ny - 1"
    | (bot) "i = nx - 1" "1 \<le> j" "j < ny - 1"
    | (left) "1 \<le> i" "i < nx - 1" "j = 0"
    | (right) "1 \<le> i" "i < nx - 1" "j = ny - 1"
    | (corner) "i = 0 \<or> i = nx - 1" "j = 0 \<or> j = ny - 1"
    using i j by linarith
  then show ?thesis
  proof cases
    case int
    have "?N (i * ny + j) = Some (stencil_val ?F ny (i * ny + j))"
      using next_field_cell[OF j, of ?F "flatten nx ny vr" nx i] int by simp
    also have "\<dots> = Some ((the (vi (i + 1, j)) + the (vi (i - 1, j)) + the (vi (i, j - 1))
          + the (vi (i, j + 1))) * 0.25)"
      using fc[of "i + 1" j] fc[of "i - 1" j] fc[of i "j - 1"] fc[of i "j + 1"] int
      by (simp add: stencil_val_cell)
    finally show ?thesis using int i j by (simp add: next_grid_cell serial_written_def serial_val_def)
  next
    case top
    have "?N (0 * ny + j) = Some ((the (vi (1, j)) + 10.0 + the (vi (0, j - 1))
          + the (vi (0, j + 1))) * 0.25)"
      using pol[THEN conjunct1, rule_format, of j, THEN conjunct1]
        fc[of 1 j] fc[of 0 "j - 1"] fc[of 0 "j + 1"] top n by simp
    then show ?thesis using top n j by (simp add: next_grid_cell serial_written_def serial_val_def)
  next
    case bot
    have "?N ((nx - 1) * ny + j) = Some ((5.0 + the (vi (nx - 2, j)) + the (vi (nx - 1, j - 1))
          + the (vi (nx - 1, j + 1))) * 0.25)"
      using pol[THEN conjunct1, rule_format, of j, THEN conjunct2]
        fc[of "nx - 2" j] fc[of "nx - 1" "j - 1"] fc[of "nx - 1" "j + 1"] bot n by simp
    then show ?thesis using bot n j by (simp add: next_grid_cell serial_written_def serial_val_def)
  next
    case left
    have "?N (i * ny + 0) = Some ((the (vi (i + 1, 0)) + the (vi (i - 1, 0)) + 15.45
          + the (vi (i, 1))) * 0.25)"
      using pol[THEN conjunct2, rule_format, of i, THEN conjunct1]
        fc[of "i + 1" 0] fc[of "i - 1" 0] fc[of i 1] left n by simp
    then show ?thesis using left n i by (simp add: next_grid_cell serial_written_def serial_val_def)
  next
    case right
    have "?N (i * ny + (ny - 1)) = Some ((the (vi (i + 1, ny - 1)) + the (vi (i - 1, ny - 1))
          + the (vi (i, ny - 2)) - 6.7) * 0.25)"
      using pol[THEN conjunct2, rule_format, of i, THEN conjunct2]
        fc[of "i + 1" "ny - 1"] fc[of "i - 1" "ny - 1"] fc[of i "ny - 2"] right n by simp
    then show ?thesis using right n i by (simp add: next_grid_cell serial_written_def serial_val_def)
  next
    case corner
    have "?N (i * ny + j) = flatten nx ny vr (i * ny + j)"
      using next_field_cell[OF j, of ?F "flatten nx ny vr" nx i] corner n by auto
    then show ?thesis
      using corner n flatten_cell[OF i j, of vr]
      by (auto simp: next_grid_cell serial_written_def)
  qed
qed

lemma next_field_outside:
  assumes "1 \<le> nx" "1 \<le> ny" "\<not> (0 \<le> a \<and> a < nx * ny)"
  shows "next_field vi vr nx ny a = vr a"
proof -
  have "a \<notin> (\<Union>i\<in>{1..<nx - 1}. {i * ny + 0, i * ny + (ny - 1)})"
    using col_cells_sub[OF assms(2), of nx] assms(3) by auto
  moreover have "a \<notin> (\<Union>j\<in>{1..<ny - 1}. {0 * ny + j, (nx - 1) * ny + j})"
    using row_cells_sub[OF assms(1), of ny] assms(3) by auto
  moreover have "a \<notin> (\<Union>i\<in>{1..<nx - 1}. \<Union>j\<in>{1..<ny - 1}. {i * ny + j})"
  proof -
    have sub: "(\<Union>i\<in>{1..<nx - 1}. \<Union>j\<in>{1..<ny - 1}. {i * ny + j}) \<subseteq> {0..<nx * ny}"
      by (rule interior_cells_sub) simp_all
    show ?thesis
    proof
      assume "a \<in> (\<Union>i\<in>{1..<nx - 1}. \<Union>j\<in>{1..<ny - 1}. {i * ny + j})"
      then have "a \<in> {0..<nx * ny}" using sub by blast
      then show False using assms(3) by simp
    qed
  qed
  ultimately show ?thesis unfolding next_field_def by (simp only: if_False)
qed

lemma flatten_next:
  assumes n: "2 < nx" "2 < ny"
  shows "next_field (flatten nx ny vi) (flatten nx ny vr) nx ny
         = flatten nx ny (next_grid vi vr nx ny)"
proof
  fix a
  show "next_field (flatten nx ny vi) (flatten nx ny vr) nx ny a
         = flatten nx ny (next_grid vi vr nx ny) a"
  proof (cases "0 \<le> a \<and> a < nx * ny")
    case False
    have "next_field (flatten nx ny vi) (flatten nx ny vr) nx ny a = flatten nx ny vr a"
      using next_field_outside[of nx ny a] n False by simp
    then show ?thesis using False by (auto simp: flatten_def)
  next
    case True
    then have c: "0 \<le> a div ny \<and> a div ny < nx \<and> 0 \<le> a mod ny \<and> a mod ny < ny
         \<and> a = a div ny * ny + a mod ny"
      using in_range_cell[of a nx ny] n by simp
    have "next_field (flatten nx ny vi) (flatten nx ny vr) nx ny (a div ny * ny + a mod ny)
         = next_grid vi vr nx ny (a div ny, a mod ny)"
      using flatten_next_cell[OF n, of "a div ny" "a mod ny" vi vr] c by blast
    then show ?thesis using True by (simp add: flatten_def)
  qed
qed

lemma flatten_relax:
  assumes ny: "0 < ny"
  shows "(\<lambda>a. if a \<in> {0..<nx * ny} then Some (relaxed (flatten nx ny vi) (flatten nx ny vr) a)
               else flatten nx ny vi a)
       = flatten nx ny (\<lambda>p. if p \<in> {0..<nx} \<times> {0..<ny} then Some (relaxed2 vi vr p) else vi p)"
proof
  fix a
  show "(if a \<in> {0..<nx * ny} then Some (relaxed (flatten nx ny vi) (flatten nx ny vr) a)
               else flatten nx ny vi a)
       = flatten nx ny (\<lambda>p. if p \<in> {0..<nx} \<times> {0..<ny} then Some (relaxed2 vi vr p) else vi p) a"
  proof (cases "0 \<le> a \<and> a < nx * ny")
    case False
    then have nr: "a \<notin> {0..<nx * ny}" by simp
    have fo: "flatten nx ny g a = None" for g
      unfolding flatten_def by (simp only: False if_False)
    show ?thesis unfolding if_not_P[OF nr] fo by (rule refl)
  next
    case True
    then have "0 \<le> a div ny \<and> a div ny < nx \<and> 0 \<le> a mod ny \<and> a mod ny < ny"
      using in_range_cell[of a nx ny] ny by simp
    then have mem: "(a div ny, a mod ny) \<in> {0..<nx} \<times> {0..<ny}" by simp
    have fa: "flatten nx ny g a = g (a div ny, a mod ny)" for g
      using True by (simp add: flatten_def)
    have ar: "a \<in> {0..<nx * ny}" using True by simp
    show ?thesis
      unfolding fa if_P[OF ar] if_P[OF mem] relaxed_def relaxed2_def half_def
      by (simp add: field_simps)
  qed
qed

lemma flatten_diag:
  "diag_records (flatten nx ny vi) (flatten nx ny vr) nx ny t = diag_records2 True vi vr nx ny t"
  unfolding diag_records_def diag_records2_def
  by (intro arg_cong[where f = concat] map_cong refl) (simp add: flatten_cell)

lemma flat_state_sel:
  "sim_vi (flat_state nx ny s) = flatten nx ny (sim_vi s)"
  "sim_vr (flat_state nx ny s) = flatten nx ny (sim_vr s)"
  "fout (flat_state nx ny s) = fout s" "cout (flat_state nx ny s) = cout s"
  by (simp_all add: flat_state_def)

lemma flat_step:
  assumes n: "2 < nx" "2 < ny"
  shows "step_closed nx ny t (flat_state nx ny s) = flat_state nx ny (step_closed2 True nx ny t s)"
proof -
  have ny: "0 < ny" using n by simp
  let ?g = "next_grid (sim_vi s) (sim_vr s) nx ny"
  have a: "next_field (flatten nx ny (sim_vi s)) (flatten nx ny (sim_vr s)) nx ny
        = flatten nx ny ?g"
    by (rule flatten_next[OF n])
  have b: "(\<lambda>a. if a \<in> {0..<nx * ny}
                 then Some (relaxed (flatten nx ny (sim_vi s)) (flatten nx ny ?g) a)
                 else flatten nx ny (sim_vi s) a)
        = flatten nx ny (\<lambda>p. if p \<in> {0..<nx} \<times> {0..<ny} then Some (relaxed2 (sim_vi s) ?g p)
                                else sim_vi s p)"
    by (rule flatten_relax[OF ny])
  have c: "diag_records (flatten nx ny (sim_vi s)) (flatten nx ny ?g) nx ny t
        = diag_records2 True (sim_vi s) ?g nx ny t"
    by (rule flatten_diag)
  have "step_closed nx ny t (flat_state nx ny s) =
      \<lparr>sim_vi = flatten nx ny (\<lambda>p. if p \<in> {0..<nx} \<times> {0..<ny} then Some (relaxed2 (sim_vi s) ?g p)
                                else sim_vi s p),
       sim_vr = flatten nx ny ?g,
       fout = fout s @ diag_records2 True (sim_vi s) ?g nx ny t,
       cout = cout s @ [t]\<rparr>"
    unfolding step_closed_def Let_def flat_state_sel unfolding a unfolding b c by (rule refl)
  then show ?thesis by (simp add: step_closed2_def Let_def flat_state_def)
qed

lemma flat_fold:
  assumes n: "2 < nx" "2 < ny"
  shows "fold (step_closed nx ny) ts (flat_state nx ny s)
         = flat_state nx ny (fold (step_closed2 True nx ny) ts s)"
  by (induction ts arbitrary: s) (simp_all add: flat_step[OF n])

lemma flat_initial:
  assumes n: "0 \<le> nx" "0 < ny"
  shows "flat_state nx ny (initial2 nx ny) = initial (init_val_optimized nx ny) nx ny"
proof -
  have v: "flatten nx ny (\<lambda>p. if p \<in> {0..<nx} \<times> {0..<ny} then Some (init_val_serial nx p) else None)
      = (\<lambda>a. if 0 \<le> a \<and> a < nx * ny then Some (init_val_optimized nx ny a) else None)"
  proof
    fix a
    show "flatten nx ny (\<lambda>p. if p \<in> {0..<nx} \<times> {0..<ny} then Some (init_val_serial nx p) else None) a
      = (if 0 \<le> a \<and> a < nx * ny then Some (init_val_optimized nx ny a) else None)"
      using in_range_cell[of a nx ny] n
      by (simp add: flatten_def init_val_serial_def init_val_optimized_def)
  qed
  have z: "flatten nx ny (zeros2 nx ny) = zeros (nx * ny)"
  proof
    fix a
    show "flatten nx ny (zeros2 nx ny) a = zeros (nx * ny) a"
      using in_range_cell[of a nx ny] n by (simp add: flatten_def zeros2_def zeros_def)
  qed
  show ?thesis by (simp add: flat_state_def initial2_def initial_def v z)
qed

lemma init_vals_agree:
  assumes "nx \<le> 46341" "0 \<le> a" "a < nx * ny" "0 < ny"
  shows "init_val_parallel nx ny a = init_val_optimized nx ny a"
  using in_range_cell[OF assms(2,3,4)] int_mul_exact[of "a div ny"] assms(1)
  by (simp add: init_val_parallel_def init_val_optimized_def)

lemma initial_agree:
  assumes "nx \<le> 46341" "0 < ny"
  shows "initial (init_val_parallel nx ny) nx ny = initial (init_val_optimized nx ny) nx ny"
  using init_vals_agree[OF assms(1) _ _ assms(2)] by (auto simp: initial_def fun_eq_iff)

section \<open>The claims of the specification\<close>

text \<open>
  Where the \<^verbatim>\<open>int\<close> product \<open>i * i\<close> cannot overflow (\<open>nx \<le> 46341\<close>), the three programs
  agree: on a grid with \<open>nx > 2\<close>, \<open>ny > 2\<close> they end with the same field \<open>current\<close>, the
  baseline's rows laid end to end, and the same diagnostic records.
\<close>

lemma runs_agree:
  assumes "2 < nx" and "nx \<le> 46341" and "2 < ny" and "nx * ny \<le> 2147483647"
  shows "\<exists>s g. run_optimized True nx ny nt = Some (0, s)
           \<and> run_parallel hw True nx ny nt = Some (0, s)
           \<and> run_serial True nx ny nt = Some (0, g)
           \<and> sim_vi s = flatten nx ny (sim_vi g) \<and> fout s = fout g"
proof -
  have n: "2 \<le> nx" "2 \<le> ny" "0 \<le> nx" "0 \<le> ny" "0 < ny" using assms by simp_all
  let ?s = "run_state (init_val_optimized nx ny) nx ny nt"
  let ?g = "run_state2 True nx ny nt"
  have p: "run_state (init_val_parallel nx ny) nx ny nt = ?s"
    by (simp add: run_state_def initial_agree[OF assms(2) n(5)])
  have f: "?s = flat_state nx ny ?g"
    unfolding run_state_def run_state2_def
    using flat_fold[OF assms(1,3), of "[0..nt - 1]" "initial2 nx ny"] flat_initial[OF n(3,5)]
    by simp
  have "sim_vi ?s = flatten nx ny (sim_vi ?g)" "fout ?s = fout ?g"
    unfolding f by (simp_all add: flat_state_def)
  then show ?thesis
    using run_optimized_closed[OF n(1,2) assms(4), of True nt]
      run_parallel_closed[OF n(1,2) assms(4), of hw True nt]
      run_serial_closed[OF n(3,4), of True nt] p
    by simp
qed

text \<open>
  C1.  The cache-optimized program and the baseline compute \<open>i * i\<close> in \<^verbatim>\<open>int\<close> before
  converting it, the parallel program computes \<open>1.0 * i * i\<close> in \<^verbatim>\<open>double\<close>.  For
  \<open>nx = 46342\<close>, \<open>ny = 3\<close>, \<open>nt = 0\<close> the \<^verbatim>\<open>int\<close> product overflows in row \<open>46341\<close>: the final
  field of the cache-optimized program and of the baseline is negative at cell
  \<open>(46341, 1)\<close>, that of the parallel program is positive.
\<close>

theorem initialisation_overflow:
  "run_optimized True 46342 3 0 \<noteq> None \<and> run_parallel 4 True 46342 3 0 \<noteq> None
   \<and> run_serial True 46342 3 0 \<noteq> None
   \<and> the (sim_vi (snd (the (run_optimized True 46342 3 0))) (46341 * 3 + 1)) < 0
   \<and> the (sim_vi (snd (the (run_serial True 46342 3 0))) (46341, 1)) < 0
   \<and> 0 < the (sim_vi (snd (the (run_parallel 4 True 46342 3 0))) (46341 * 3 + 1))"
proof -
  have a: "run_optimized True 46342 3 0 = Some (0, initial (init_val_optimized 46342 3) 46342 3)"
    using run_optimized_nosteps[of 46342 3 0] by simp
  have b: "run_parallel 4 True 46342 3 0 = Some (0, initial (init_val_parallel 46342 3) 46342 3)"
    using run_parallel_nosteps[of 46342 3 0 4] by simp
  have c: "run_serial True 46342 3 0 = Some (0, initial2 46342 3)"
    using run_serial_closed[of 46342 3 True 0] by (simp add: run_state2_def)
  have s: "0 < sin (pi_c / 46342 * 46341)"
    unfolding pi_c_pi by (rule sin_gt_zero) (simp_all add: field_simps)
  have m: "int_mul 46341 46341 = - 2147479015" by (simp add: int_mul_def)
  have d: "(139024::int) div 3 = 46341" "(139024::int) mod 3 = 1" by simp_all
  have o: "init_val_optimized 46342 3 139024 = - 2147479015 * sin (pi_c / 46342 * 46341)"
    unfolding init_val_optimized_def d m by simp
  have p: "init_val_parallel 46342 3 139024 = 2147488281 * sin (pi_c / 46342 * 46341)"
    unfolding init_val_parallel_def d by simp
  have q: "init_val_serial 46342 (46341, 1) = - 2147479015 * sin (pi_c / 46342 * 46341)"
    by (simp add: init_val_serial_def m)
  have on: "init_val_optimized 46342 3 139024 < 0"
    unfolding o using s by (intro mult_neg_pos) simp_all
  have pn: "0 < init_val_parallel 46342 3 139024"
    unfolding p using s by (intro mult_pos_pos) simp_all
  have qn: "init_val_serial 46342 (46341, 1) < 0"
    unfolding q using s by (intro mult_neg_pos) simp_all
  have "the (sim_vi (initial (init_val_optimized 46342 3) 46342 3) (46341 * 3 + 1)) < 0"
    using on by (simp add: initial_def)
  moreover have "0 < the (sim_vi (initial (init_val_parallel 46342 3) 46342 3) (46341 * 3 + 1))"
    using pn by (simp add: initial_def)
  moreover have "the (sim_vi (initial2 46342 3) (46341, 1)) < 0"
    using qn by (simp add: initial2_def)
  ultimately show ?thesis by (simp add: a b c)
qed

text \<open>
  C2.  On arrays of \<open>nx * ny\<close> doubles, the interior update of a time step (the loop nest of
  the cache-optimized program, and the worker threads of the parallel program together)
  writes \<open>next[i,j] = (current[i+1,j] + current[i-1,j] + current[i,j-1] + current[i,j+1]) * 0.25\<close>
  for every interior cell \<open>1 \<le> i < nx - 1\<close>, \<open>1 \<le> j < ny - 1\<close>, from the field \<open>current\<close>
  it was given.  The kernel called on a row range \<open>[i_begin, i_end)\<close> clips the range to
  \<open>[max 1 i_begin, min (nx - 1) i_end)\<close> and writes those rows only; it returns the new
  \<open>next\<close> and has no other effect.
\<close>

theorem interior_kernel_formula:
  assumes "allocated (nx * ny) vi" and "allocated (nx * ny) vr"
  shows "(\<exists>vr'. interior_update vi nx ny vr = Some vr'
            \<and> interior_threads hw vi nx ny vr = Some vr'
            \<and> writes_interior vi vr ny 1 (nx - 1) vr')
       \<and> (\<exists>vr'. stencil_update_block vi vr nx ny i_begin i_end = Some vr'
            \<and> writes_interior vi vr ny (max 1 i_begin) (min (nx - 1) i_end) vr')"
  using interior_update_closed[OF assms] interior_threads_closed[OF assms, of hw]
    stencil_block_closed[OF assms, of i_begin i_end]
    writes_interior_closed[of vi vr ny 1 "nx - 1"]
    writes_interior_closed[of vi vr ny "max 1 i_begin" "min (nx - 1) i_end"]
  by simp

theorem interior_kernel_formula_witness:
  "allocated (3 * 3) (ramp 9) \<and> allocated (3 * 3) (zeros 9)
   \<and> (\<exists>vr'. interior_update (ramp 9) 3 3 (zeros 9) = Some vr'
         \<and> interior_threads 4 (ramp 9) 3 3 (zeros 9) = Some vr'
         \<and> stencil_update_block (ramp 9) (zeros 9) 3 3 0 7 = Some vr'
         \<and> vr' 4 = Some 4 \<and> vr' 0 = Some 0)"
proof -
  have a: "allocated (3 * 3) (ramp 9)" "allocated (3 * 3) (zeros 9)"
    using allocated_ramp[of 9] allocated_zeros[of 9] by simp_all
  from interior_kernel_formula[OF a, of 4 0 7]
  obtain v w where v: "interior_update (ramp 9) 3 3 (zeros 9) = Some v"
      "interior_threads 4 (ramp 9) 3 3 (zeros 9) = Some v"
      "writes_interior (ramp 9) (zeros 9) 3 1 (3 - 1) v"
    and w: "stencil_update_block (ramp 9) (zeros 9) 3 3 0 7 = Some w"
      "writes_interior (ramp 9) (zeros 9) 3 (max 1 0) (min (3 - 1) 7) w"
    by blast
  have "w = v" using v(1) w(1) by (simp add: interior_update_block stencil_update_block_def)
  moreover have "v (1 * 3 + 1) = Some 4"
    using v(3) unfolding writes_interior_def
    by (elim conjE allE[of _ 1]) (simp add: ramp_def)
  moreover have "v 0 = Some 0"
  proof -
    have "\<forall>i j. 1 \<le> i \<and> i < 3 - 1 \<and> 1 \<le> j \<and> j < 3 - 1 \<longrightarrow> (0::int) \<noteq> i * 3 + j" by auto
    then have "v 0 = zeros 9 0" using v(3) unfolding writes_interior_def by blast
    then show ?thesis by (simp add: zeros_def)
  qed
  ultimately show ?thesis using a v w by auto
qed

text \<open>
  C3.  In every time step on a grid with \<open>nx > 2\<close> and \<open>ny > 2\<close>, of the cache-optimized
  and of the parallel program, the four edge lines of \<open>next\<close> after the step are computed
  from the field \<open>current\<close> as it was before the step, and from nothing else:
  \<open>next[0,j] = (current[1,j] + 10.0 + current[0,j-1] + current[0,j+1]) * 0.25\<close> and
  \<open>next[nx-1,j] = (5.0 + current[nx-2,j] + current[nx-1,j-1] + current[nx-1,j+1]) * 0.25\<close>
  for \<open>1 \<le> j < ny - 1\<close>;
  \<open>next[i,0] = (current[i+1,0] + current[i-1,0] + 15.45 + current[i,1]) * 0.25\<close> and
  \<open>next[i,ny-1] = (current[i+1,ny-1] + current[i-1,ny-1] + current[i,ny-2] - 6.7) * 0.25\<close>
  for \<open>1 \<le> i < nx - 1\<close>.
\<close>

theorem boundary_from_current:
  assumes "2 < nx" and "2 < ny"
    and "allocated (nx * ny) (sim_vi s)" and "allocated (nx * ny) (sim_vr s)"
  shows "\<exists>s'. step_optimized nx ny t s = Some s' \<and> step_parallel hw nx ny t s = Some s'
           \<and> boundary_policy (sim_vi s) nx ny (sim_vr s')"
proof -
  have n: "2 \<le> nx" "2 \<le> ny" using assms by simp_all
  have "boundary_policy (sim_vi s) nx ny (sim_vr (step_closed nx ny t s))"
    using next_field_policy[OF assms(1,2)] by (simp add: step_closed_def Let_def)
  then show ?thesis
    using step_optimized_closed[OF n assms(3,4)] step_parallel_closed[OF n assms(3,4)]
    by simp
qed

theorem boundary_from_current_witness:
  "(2::int) < 3 \<and> allocated (3 * 3) (sim_vi state0) \<and> allocated (3 * 3) (sim_vr state0)
   \<and> (\<exists>s'. step_optimized 3 3 0 state0 = Some s' \<and> step_parallel 2 3 3 0 state0 = Some s'
         \<and> sim_vr s' (0 * 3 + 1) = Some 4 \<and> sim_vr s' (1 * 3 + 0) = Some 6.3625)"
proof -
  have a: "(2::int) < 3" "allocated (3 * 3) (sim_vi state0)" "allocated (3 * 3) (sim_vr state0)"
    using allocated_ramp[of 9] allocated_zeros[of 9] by (simp_all add: state0_def)
  from boundary_from_current[OF a(1) a(1) a(2,3), of 0 2]
  obtain s' where s': "step_optimized 3 3 0 state0 = Some s'"
    "step_parallel 2 3 3 0 state0 = Some s'"
    "boundary_policy (sim_vi state0) 3 3 (sim_vr s')" by blast
  have "sim_vr s' (0 * 3 + 1) = Some 4"
    using s'(3)[unfolded boundary_policy_def, THEN conjunct1, rule_format, of 1]
    by (simp add: state0_def ramp_def)
  moreover have "sim_vr s' (1 * 3 + 0) = Some 6.3625"
    using s'(3)[unfolded boundary_policy_def, THEN conjunct2, rule_format, of 1]
    by (simp add: state0_def ramp_def)
  ultimately show ?thesis using a s' by blast
qed

text \<open>
  C4, as amended.  In every time step on a grid with \<open>nx > 2\<close> and \<open>ny > 2\<close> the four corner
  cells \<open>(0,0)\<close>, \<open>(0,ny-1)\<close>, \<open>(nx-1,0)\<close>, \<open>(nx-1,ny-1)\<close> of \<open>next\<close> are written by neither
  the interior kernel nor the boundary policy: after the step each corner of \<open>next\<close> holds
  exactly the value it held before the step.  In a run that value is zero at every step:
  \<open>next\<close> starts at zero and the relaxation writes \<open>current\<close> only.  For the two array
  programs the run is one whose array size \<open>nx * ny\<close> an \<^verbatim>\<open>int\<close> can hold; the baseline,
  which allocates row by row, needs no such bound.
\<close>

theorem corners_never_written:
  assumes "2 < nx" and "2 < ny"
  shows "(allocated (nx * ny) (sim_vi s) \<and> allocated (nx * ny) (sim_vr s) \<longrightarrow>
           (\<exists>s'. step_optimized nx ny t s = Some s' \<and> step_parallel hw nx ny t s = Some s'
              \<and> corners_kept nx ny (sim_vr s) (sim_vr s')))
       \<and> (allocated2 nx ny (sim_vi g) \<and> allocated2 nx ny (sim_vr g) \<longrightarrow>
           (\<exists>g'. step_serial opens nx ny t g = Some g'
              \<and> corners_kept2 nx ny (sim_vr g) (sim_vr g')))
       \<and> (nx * ny \<le> 2147483647 \<longrightarrow>
           (\<exists>s'. run_optimized True nx ny nt = Some (0, s') \<and> corners_zero nx ny (sim_vr s'))
         \<and> (\<exists>s'. run_parallel hw True nx ny nt = Some (0, s') \<and> corners_zero nx ny (sim_vr s')))
       \<and> (\<exists>g'. run_serial opens nx ny nt = Some (0, g') \<and> corners_zero2 nx ny (sim_vr g'))"
proof -
  have n: "2 \<le> nx" "2 \<le> ny" "0 < nx" "0 < ny" "0 \<le> nx" "0 \<le> ny" using assms by simp_all
  have a: "\<exists>s'. step_optimized nx ny t s = Some s' \<and> step_parallel hw nx ny t s = Some s'
              \<and> corners_kept nx ny (sim_vr s) (sim_vr s')"
    if "allocated (nx * ny) (sim_vi s) \<and> allocated (nx * ny) (sim_vr s)"
    using step_optimized_closed[OF n(1,2), of s t] step_parallel_closed[OF n(1,2), of s hw t]
      step_closed_corners[OF n(4), of nx s t] that by simp
  have b: "\<exists>g'. step_serial opens nx ny t g = Some g'
              \<and> corners_kept2 nx ny (sim_vr g) (sim_vr g')"
    if "allocated2 nx ny (sim_vi g) \<and> allocated2 nx ny (sim_vr g)"
    using step_serial_closed[of nx ny g opens t] step_closed2_corners[of nx ny g opens t] that
    by simp
  have c: "(\<exists>s'. run_optimized True nx ny nt = Some (0, s') \<and> corners_zero nx ny (sim_vr s'))
         \<and> (\<exists>s'. run_parallel hw True nx ny nt = Some (0, s') \<and> corners_zero nx ny (sim_vr s'))"
    if m: "nx * ny \<le> 2147483647"
    using run_optimized_closed[OF n(1,2) m, of True nt] run_parallel_closed[OF n(1,2) m, of hw True nt]
      run_state_corners[OF n(3,4)]
    by simp
  have d: "\<exists>g'. run_serial opens nx ny nt = Some (0, g') \<and> corners_zero2 nx ny (sim_vr g')"
    using run_serial_closed[OF n(5,6), of opens nt] run_state2_corners[OF n(3,4)]
    by simp
  show ?thesis using a b c d by blast
qed

theorem corners_never_written_witness:
  "(2::int) < 3 \<and> allocated (3 * 3) (sim_vi state0) \<and> allocated (3 * 3) (sim_vr state0)
   \<and> allocated2 3 3 (sim_vi gstate0) \<and> allocated2 3 3 (sim_vr gstate0)
   \<and> (3::int) * 3 \<le> 2147483647
   \<and> (\<exists>s'. step_optimized 3 3 0 state0 = Some s' \<and> step_parallel 2 3 3 0 state0 = Some s'
         \<and> sim_vr s' (2 * 3 + 2) = Some 0)
   \<and> (\<exists>g'. step_serial True 3 3 0 gstate0 = Some g' \<and> sim_vr g' (2, 2) = Some 0)
   \<and> (\<exists>s'. run_optimized True 3 3 5 = Some (0, s') \<and> sim_vr s' (2 * 3 + 2) = Some 0)
   \<and> (\<exists>g'. run_serial True 3 3 5 = Some (0, g') \<and> sim_vr g' (2, 2) = Some 0)"
proof -
  have h: "(2::int) < 3" by simp
  have a: "allocated (3 * 3) (sim_vi state0) \<and> allocated (3 * 3) (sim_vr state0)"
    using allocated_ramp[of 9] allocated_zeros[of 9] by (simp add: state0_def)
  have b: "allocated2 3 3 (sim_vi gstate0) \<and> allocated2 3 3 (sim_vr gstate0)"
    using allocated2_zeros2[of 3 3]
    by (auto simp: gstate0_def allocated2_def gramp_def dom_def split: if_splits)
  have c: "(3::int) * 3 \<le> 2147483647" by simp
  note t = corners_never_written[OF h h, of state0 0 2 gstate0 True 5]
  from t a obtain s' where s': "step_optimized 3 3 0 state0 = Some s'"
    "step_parallel 2 3 3 0 state0 = Some s'" "corners_kept 3 3 (sim_vr state0) (sim_vr s')"
    by blast
  from t b obtain g' where g': "step_serial True 3 3 0 gstate0 = Some g'"
    "corners_kept2 3 3 (sim_vr gstate0) (sim_vr g')" by blast
  from t c obtain r where r: "run_optimized True 3 3 5 = Some (0, r)"
    "corners_zero 3 3 (sim_vr r)" by blast
  from t obtain q where q: "run_serial True 3 3 5 = Some (0, q)"
    "corners_zero2 3 3 (sim_vr q)" by blast
  have "sim_vr s' (2 * 3 + 2) = Some 0"
    using s'(3) by (simp add: corners_kept_def state0_def zeros_def)
  moreover have "sim_vr g' (2, 2) = Some 0"
    using g'(2) by (simp add: corners_kept2_def gstate0_def zeros2_def)
  moreover have "sim_vr r (2 * 3 + 2) = Some 0"
    using r(2) by (simp add: corners_zero_def)
  moreover have "sim_vr q (2, 2) = Some 0"
    using q(2) by (simp add: corners_zero2_def)
  ultimately show ?thesis using h a b c s' g' r q by blast
qed

text \<open>
  C4 as stated has the corners of \<open>next\<close> hold a relaxed value from the second step on.
  On the 3 by 3 grid, after the first step the corner \<open>(2,2)\<close> of \<open>next\<close> is still \<open>0\<close>,
  while the relaxed corner value, in \<open>current\<close>, is \<open>2 * sqrt 3\<close>.
\<close>

theorem corner_value_counterexample:
  "run_optimized True 3 3 1 \<noteq> None
   \<and> sim_vr (snd (the (run_optimized True 3 3 1))) (2 * 3 + 2) = Some 0
   \<and> sim_vi (snd (the (run_optimized True 3 3 1))) (2 * 3 + 2) = Some (2 * sqrt 3)"
proof -
  have n: "(2::int) \<le> 3" "(3::int) * 3 \<le> 2147483647" by simp_all
  let ?f = "init_val_optimized 3 3"
  have r: "run_optimized True 3 3 1 = Some (0, run_state ?f 3 3 1)"
    using run_optimized_closed[OF n(1) n(1) n(2), of True 1] by simp
  have s: "run_state ?f 3 3 1 = step_closed 3 3 0 (initial ?f 3 3)"
    by (simp add: run_state_def)
  have z: "sim_vr (run_state ?f 3 3 1) (2 * 3 + 2) = Some 0"
    using run_state_corners[of 3 3 ?f 1] by (simp add: corners_zero_def)
  have f: "?f 8 = 4 * sqrt 3"
    by (simp add: init_val_optimized_def int_mul_def pi_c_pi sin_120)
  have "sim_vi (run_state ?f 3 3 1) (2 * 3 + 2) = Some (2 * sqrt 3)"
    using z unfolding s by (simp add: step_closed_def Let_def relaxed_def initial_def f half_def)
  then show ?thesis using r z by simp
qed

text \<open>
  C5.  The diagnostic scan of step \<open>t\<close> reads all \<open>nx * ny\<close> cells, boundaries and corners
  included, and appends the record \<open>(t, i, j, |current[i,j]|, |next[i,j]|)\<close> for cell
  \<open>(i, j)\<close> if and only if \<open>||next[i,j]| - |current[i,j]|| < 0.01\<close>.  The comparison is
  strict: a cell whose magnitude difference is exactly \<open>0.01\<close> is not recorded, one whose
  magnitude difference is \<open>0.00999\<close> is.
\<close>

theorem diagnostic_threshold:
  assumes "allocated (nx * ny) vi" and "allocated (nx * ny) vr"
  shows "\<exists>new. diagnostic_scan vi vr nx ny t out = Some (out @ new)
           \<and> new = diag_records vi vr nx ny t
           \<and> (\<forall>t' i j a b. (t', i, j, a, b) \<in> set new \<longleftrightarrow>
                 t' = t \<and> 0 \<le> i \<and> i < nx \<and> 0 \<le> j \<and> j < ny
                 \<and> a = \<bar>the (vi (i * ny + j))\<bar> \<and> b = \<bar>the (vr (i * ny + j))\<bar>
                 \<and> \<bar>b - a\<bar> < 0.01)
           \<and> (\<forall>i j. 0 \<le> i \<and> i < nx \<and> 0 \<le> j \<and> j < ny \<longrightarrow>
                 (\<bar>\<bar>the (vr (i * ny + j))\<bar> - \<bar>the (vi (i * ny + j))\<bar>\<bar> = 0.01
                    \<longrightarrow> \<not> recorded vi vr nx ny t i j new)
               \<and> (\<bar>\<bar>the (vr (i * ny + j))\<bar> - \<bar>the (vi (i * ny + j))\<bar>\<bar> = 0.00999
                    \<longrightarrow> recorded vi vr nx ny t i j new))"
proof -
  let ?new = "diag_records vi vr nx ny t"
  have iff: "(t', i, j, a, b) \<in> set ?new \<longleftrightarrow>
                 t' = t \<and> 0 \<le> i \<and> i < nx \<and> 0 \<le> j \<and> j < ny
                 \<and> a = \<bar>the (vi (i * ny + j))\<bar> \<and> b = \<bar>the (vr (i * ny + j))\<bar>
                 \<and> \<bar>b - a\<bar> < 0.01" for t' i j a b
    unfolding diag_records_set by auto
  have "\<not> recorded vi vr nx ny t i j ?new"
    if "\<bar>\<bar>the (vr (i * ny + j))\<bar> - \<bar>the (vi (i * ny + j))\<bar>\<bar> = 0.01" for i j
    using that unfolding recorded_def iff by simp
  moreover have "recorded vi vr nx ny t i j ?new"
    if "0 \<le> i \<and> i < nx \<and> 0 \<le> j \<and> j < ny"
      "\<bar>\<bar>the (vr (i * ny + j))\<bar> - \<bar>the (vi (i * ny + j))\<bar>\<bar> = 0.00999" for i j
    using that unfolding recorded_def iff by simp
  ultimately show ?thesis
    using diagnostic_scan_closed[OF assms, of t out] iff by blast
qed

theorem diagnostic_threshold_witness:
  "allocated (3 * 3) (ramp 9) \<and> allocated (3 * 3) (zeros 9)
   \<and> diagnostic_scan (ramp 9) (zeros 9) 3 3 7 [] = Some [(7, 0, 0, 0, 0)]"
proof -
  have a: "allocated (3 * 3) (ramp 9)" "allocated (3 * 3) (zeros 9)"
    using allocated_ramp[of 9] allocated_zeros[of 9] by simp_all
  from diagnostic_threshold[OF a, of 7 "[]"]
  have "diagnostic_scan (ramp 9) (zeros 9) 3 3 7 [] = Some (diag_records (ramp 9) (zeros 9) 3 3 7)"
    by simp
  moreover have "[0..(2::int)] = [0, 1, 2]" by (simp add: upto_rec1)
  ultimately have "diagnostic_scan (ramp 9) (zeros 9) 3 3 7 [] = Some [(7, 0, 0, 0, 0)]"
    by (simp add: diag_records_def ramp_def zeros_def)
  then show ?thesis using a by simp
qed

text \<open>
  C6.  For every \<open>nx \<ge> 3\<close> and every worker count \<open>W \<ge> 1\<close>, with
  \<open>chunk = max 1 ((nx - 2) div W)\<close>, worker \<open>k\<close> receives the rows from \<open>1 + k * chunk\<close> up to
  \<open>min (nx - 1) (1 + (k + 1) * chunk)\<close> (the last worker: up to \<open>nx - 1\<close>); these ranges are
  pairwise disjoint and their union is exactly the interior row range \<open>1 ..< nx - 1\<close>.
\<close>

theorem partition_exact:
  assumes "3 \<le> nx" and "1 \<le> W"
  shows "(\<Union>k\<in>{0..<W}. {block_begin nx W k ..< block_end nx W k}) = {1..<nx - 1}
       \<and> (\<forall>k k'. 0 \<le> k \<and> k < k' \<and> k' < W \<longrightarrow>
            {block_begin nx W k ..< block_end nx W k}
              \<inter> {block_begin nx W k' ..< block_end nx W k'} = {})
       \<and> (\<forall>k. 0 \<le> k \<and> k < W \<longrightarrow>
            block_begin nx W k = 1 + k * max 1 ((nx - 2) div W)
          \<and> block_end nx W k =
              (if k = W - 1 then nx - 1 else min (nx - 1) (1 + (k + 1) * max 1 ((nx - 2) div W))))"
proof (intro conjI allI impI)
  show "(\<Union>k\<in>{0..<W}. {block_begin nx W k ..< block_end nx W k}) = {1..<nx - 1}"
  proof (rule set_eqI)
    fix x
    show "x \<in> (\<Union>k\<in>{0..<W}. {block_begin nx W k ..< block_end nx W k}) \<longleftrightarrow> x \<in> {1..<nx - 1}"
    proof
      assume "x \<in> (\<Union>k\<in>{0..<W}. {block_begin nx W k ..< block_end nx W k})"
      then obtain k where "0 \<le> k" "block_begin nx W k \<le> x" "x < block_end nx W k" by auto
      then show "x \<in> {1..<nx - 1}"
        using block_lower[of k nx W] block_upper[of nx W k] by simp
    next
      assume "x \<in> {1..<nx - 1}"
      then show "x \<in> (\<Union>k\<in>{0..<W}. {block_begin nx W k ..< block_end nx W k})"
        using block_cover[OF assms(2), of x nx] by auto
    qed
  qed
next
  fix k k' assume "0 \<le> k \<and> k < k' \<and> k' < W"
  then show "{block_begin nx W k ..< block_end nx W k}
              \<inter> {block_begin nx W k' ..< block_end nx W k'} = {}"
    using block_next[of k k' W nx] by auto
next
  fix k show "block_begin nx W k = 1 + k * max 1 ((nx - 2) div W)"
    by (simp add: block_begin_def chunk_of_def)
next
  fix k show "block_end nx W k =
              (if k = W - 1 then nx - 1 else min (nx - 1) (1 + (k + 1) * max 1 ((nx - 2) div W)))"
    by (simp add: block_end_def block_begin_def chunk_of_def algebra_simps)
qed

theorem partition_exact_witness:
  "(3::int) \<le> 10 \<and> (1::int) \<le> 3
   \<and> (\<Union>k\<in>{0..<3}. {block_begin 10 3 k ..< block_end 10 3 k}) = {1..<10 - 1}
   \<and> {block_begin 10 3 0 ..< block_end 10 3 0} \<inter> {block_begin 10 3 2 ..< block_end 10 3 2} = {}
   \<and> block_begin 10 3 2 = 5 \<and> block_end 10 3 2 = 9"
proof -
  have h: "(3::int) \<le> 10" "(1::int) \<le> 3" by simp_all
  note t = partition_exact[OF h]
  have a: "(\<Union>k\<in>{0..<3}. {block_begin 10 3 k ..< block_end 10 3 k}) = {1..<10 - 1}"
    by (rule t[THEN conjunct1])
  have b: "{block_begin 10 3 0 ..< block_end 10 3 0}
       \<inter> {block_begin 10 3 2 ..< block_end 10 3 2} = {}"
    by (rule t[THEN conjunct2, THEN conjunct1, rule_format, of 0 2]) simp
  have c: "block_begin 10 3 2 = 5" "block_end 10 3 2 = 9"
    using t[THEN conjunct2, THEN conjunct2, rule_format, of 2] by simp_all
  show ?thesis by (intro conjI h a b c)
qed

text \<open>
  C7.  The relaxation step (the single loop of the cache-optimized program, the worker
  threads of the parallel program, the loop nest of the baseline) sets every one of the
  \<open>nx * ny\<close> cells to \<open>(current[i,j] + next[i,j]) * 0.5\<close>, and that value lies between the
  two: \<open>min old new \<le> relaxed \<le> max old new\<close>.
\<close>

theorem relaxation_mean:
  assumes "allocated (nx * ny) vi" and "allocated (nx * ny) vr"
    and "allocated2 nx ny gi" and "allocated2 nx ny gr"
  shows "(\<exists>vi'. relax vr nx ny vi = Some vi' \<and> relax_threads hw vr nx ny vi = Some vi'
            \<and> (\<forall>i j. 0 \<le> i \<and> i < nx \<and> 0 \<le> j \<and> j < ny \<longrightarrow> relaxes vi vr (i * ny + j) vi'))
       \<and> (\<exists>gi'. relax_serial gr nx ny gi = Some gi'
            \<and> (\<forall>i j. 0 \<le> i \<and> i < nx \<and> 0 \<le> j \<and> j < ny \<longrightarrow> relaxes gi gr (i, j) gi'))"
proof (intro conjI)
  let ?v = "\<lambda>a. if a \<in> {0..<nx * ny} then Some (relaxed vi vr a) else vi a"
  have "relaxes vi vr (i * ny + j) ?v" if "0 \<le> i \<and> i < nx \<and> 0 \<le> j \<and> j < ny" for i j
    using idx_range[of i nx j ny] that mean_between[of "the (vi (i * ny + j))" "the (vr (i * ny + j))"]
    by (simp add: relaxes_def relaxed_def half_def)
  then show "\<exists>vi'. relax vr nx ny vi = Some vi' \<and> relax_threads hw vr nx ny vi = Some vi'
            \<and> (\<forall>i j. 0 \<le> i \<and> i < nx \<and> 0 \<le> j \<and> j < ny \<longrightarrow> relaxes vi vr (i * ny + j) vi')"
    using relax_closed[OF assms(1,2)] relax_threads_closed[OF assms(1,2), of hw] by blast
next
  let ?g = "\<lambda>p. if p \<in> {0..<nx} \<times> {0..<ny} then Some (relaxed2 gi gr p) else gi p"
  have "relaxes gi gr (i, j) ?g" if "0 \<le> i \<and> i < nx \<and> 0 \<le> j \<and> j < ny" for i j
    using that mean_between[of "the (gi (i, j))" "the (gr (i, j))"]
    by (simp add: relaxes_def relaxed2_def field_simps)
  then show "\<exists>gi'. relax_serial gr nx ny gi = Some gi'
            \<and> (\<forall>i j. 0 \<le> i \<and> i < nx \<and> 0 \<le> j \<and> j < ny \<longrightarrow> relaxes gi gr (i, j) gi')"
    using relax_serial_closed[OF assms(3,4)] by blast
qed

theorem relaxation_mean_witness:
  "allocated (3 * 3) (ramp 9) \<and> allocated (3 * 3) (zeros 9)
   \<and> allocated2 3 3 gramp \<and> allocated2 3 3 (zeros2 3 3)
   \<and> (\<exists>vi'. relax (zeros 9) 3 3 (ramp 9) = Some vi'
         \<and> relax_threads 2 (zeros 9) 3 3 (ramp 9) = Some vi' \<and> vi' (2 * 3 + 2) = Some 4)
   \<and> (\<exists>gi'. relax_serial (zeros2 3 3) 3 3 gramp = Some gi' \<and> gi' (2, 2) = Some 4)"
proof -
  have a: "allocated (3 * 3) (ramp 9)" "allocated (3 * 3) (zeros 9)"
    using allocated_ramp[of 9] allocated_zeros[of 9] by simp_all
  have b: "allocated2 3 3 gramp" "allocated2 3 3 (zeros2 3 3)"
    using allocated2_zeros2[of 3 3]
    by (auto simp: allocated2_def gramp_def dom_def split: if_splits)
  from relaxation_mean[OF a b, of 2]
  obtain v g where v: "relax (zeros 9) 3 3 (ramp 9) = Some v"
      "relax_threads 2 (zeros 9) 3 3 (ramp 9) = Some v"
      "\<forall>i j. 0 \<le> i \<and> i < 3 \<and> 0 \<le> j \<and> j < 3 \<longrightarrow> relaxes (ramp 9) (zeros 9) (i * 3 + j) v"
    and g: "relax_serial (zeros2 3 3) 3 3 gramp = Some g"
      "\<forall>i j. 0 \<le> i \<and> i < 3 \<and> 0 \<le> j \<and> j < 3 \<longrightarrow> relaxes gramp (zeros2 3 3) (i, j) g"
    by blast
  have "v (2 * 3 + 2) = Some 4"
    using v(3)[rule_format, of 2 2] by (simp add: relaxes_def ramp_def zeros_def)
  moreover have "g (2, 2) = Some 4"
    using g(2)[rule_format, of 2 2] by (simp add: relaxes_def gramp_def zeros2_def)
  ultimately show ?thesis using a b v g by blast
qed

text \<open>
  C8, as amended.  Take a configuration with \<open>nx \<le> 2\<close>, \<open>ny \<le> 2\<close> or negative \<open>nt\<close> whose
  extents are not negative: \<open>0 \<le> nx\<close> and \<open>0 \<le> ny\<close>.  The serial baseline does not reject
  it: the run executes the steps \<open>0, \<dots>, nt - 1\<close> (none when \<open>nt \<le> 0\<close>), which the console
  shows, and ends with status 0.  The cache-optimized and the parallel program, their
  \<^verbatim>\<open>data_out\<close> opened, do the same whenever moreover \<open>nx * ny \<le> 2147483647\<close> (the array
  size is one an \<^verbatim>\<open>int\<close> can hold) and either \<open>nt \<le> 0\<close> or both \<open>2 \<le> nx\<close> and \<open>2 \<le> ny\<close>.
  The statement is silent on every other configuration: a negative extent, for the two
  array programs a size beyond \<^verbatim>\<open>int\<close>, and for the two array programs \<open>nx < 2\<close> or
  \<open>ny < 2\<close> together with \<open>nt > 0\<close>.  Among those are runs that have no result at all
  (\<open>narrow_grid_reads_outside\<close>, \<open>negative_extent_no_allocation\<close>,
  \<open>oversized_grid_no_allocation\<close>), so that the bounds cannot be dropped.
\<close>

theorem configuration_not_checked:
  assumes "nx \<le> 2 \<or> ny \<le> 2 \<or> nt < 0"
    and "0 \<le> nx" and "0 \<le> ny"
  shows "(nx * ny \<le> 2147483647 \<and> (nt \<le> 0 \<or> (2 \<le> nx \<and> 2 \<le> ny)) \<longrightarrow>
            (\<exists>s. run_optimized True nx ny nt = Some (0, s) \<and> cout s = [0..nt - 1])
          \<and> (\<exists>s. run_parallel hw True nx ny nt = Some (0, s) \<and> cout s = [0..nt - 1]))
       \<and> (\<exists>g. run_serial opens nx ny nt = Some (0, g) \<and> cout g = [0..nt - 1])"
proof -
  have s: "\<exists>g. run_serial opens nx ny nt = Some (0, g) \<and> cout g = [0..nt - 1]"
    using run_serial_closed[OF assms(2,3), of opens nt] run_state2_cout[of opens nx ny nt]
    by simp
  have a: "(\<exists>s. run_optimized True nx ny nt = Some (0, s) \<and> cout s = [0..nt - 1])
         \<and> (\<exists>s. run_parallel hw True nx ny nt = Some (0, s) \<and> cout s = [0..nt - 1])"
    if m: "nx * ny \<le> 2147483647" and c: "nt \<le> 0 \<or> (2 \<le> nx \<and> 2 \<le> ny)"
    using c
  proof
    assume nt: "nt \<le> 0"
    then have e: "[0..nt - 1] = []" by simp
    have "cout (initial f nx ny) = [0..nt - 1]" for f by (simp add: initial_def e)
    then show ?thesis
      using run_optimized_nosteps[OF assms(2,3) m nt]
        run_parallel_nosteps[OF assms(2,3) m nt, of hw] by simp
  next
    assume n: "2 \<le> nx \<and> 2 \<le> ny"
    then have n2: "2 \<le> nx" "2 \<le> ny" by simp_all
    show ?thesis
      using run_optimized_closed[OF n2 m, of True nt]
        run_parallel_closed[OF n2 m, of hw True nt]
        run_state_cout[of _ nx ny nt] by simp
  qed
  show ?thesis using a s by blast
qed

theorem configuration_not_checked_witness:
  "((2::int) \<le> 2 \<or> (3::int) \<le> 2 \<or> (1::int) < 0) \<and> (0::int) \<le> 2 \<and> (0::int) \<le> 3
   \<and> (2::int) * 3 \<le> 2147483647 \<and> ((1::int) \<le> 0 \<or> ((2::int) \<le> 2 \<and> (2::int) \<le> 3))
   \<and> (\<exists>s. run_optimized True 2 3 1 = Some (0, s) \<and> cout s = [0])
   \<and> (\<exists>s. run_parallel 4 True 2 3 1 = Some (0, s) \<and> cout s = [0])
   \<and> (\<exists>g. run_serial True 2 3 1 = Some (0, g) \<and> cout g = [0])"
proof -
  have h: "(2::int) \<le> 2 \<or> (3::int) \<le> 2 \<or> (1::int) < 0" "(0::int) \<le> 2" "(0::int) \<le> 3"
    by simp_all
  from configuration_not_checked[OF h, of 4 True]
  show ?thesis by simp
qed

text \<open>
  C8 as stated fails: on \<open>nx = 2\<close>, \<open>ny = 3\<close>, \<open>nt = 1\<close> the cache-optimized program
  executes step 0 and exits with status 0, and on \<open>nt = - 1\<close> it exits with status 0.
\<close>

theorem invalid_configuration_counterexample:
  "map_option fst (run_optimized True 2 3 1) = Some 0
   \<and> map_option (cout \<circ> snd) (run_optimized True 2 3 1) = Some [0]
   \<and> map_option fst (run_optimized True 3 3 (- 1)) = Some 0"
proof -
  have a: "run_optimized True 2 3 1 = Some (0, run_state (init_val_optimized 2 3) 2 3 1)"
    using run_optimized_closed[of 2 3 True 1] by simp
  have b: "run_optimized True 3 3 (- 1) = Some (0, initial (init_val_optimized 3 3) 3 3)"
    using run_optimized_nosteps[of 3 3 "- 1"] by simp
  show ?thesis using run_state_cout[of "init_val_optimized 2 3" 2 3 1] by (simp add: a b)
qed

text \<open>
  C9.  When \<^verbatim>\<open>data_out\<close> cannot be opened, the cache-optimized and the parallel program
  exit with status 1 before the first step.  The serial baseline does not test the
  stream: on a 3 by 3 grid with \<open>nt = 2\<close> it executes both steps, writes no record, and
  exits with status 0.
\<close>

theorem sink_failure_baseline_runs:
  "map_option fst (run_serial False 3 3 2) = Some 0
   \<and> map_option (cout \<circ> snd) (run_serial False 3 3 2) = Some [0, 1]
   \<and> map_option (fout \<circ> snd) (run_serial False 3 3 2) = Some []
   \<and> map_option fst (run_optimized False 3 3 2) = Some 1
   \<and> map_option (cout \<circ> snd) (run_optimized False 3 3 2) = Some []
   \<and> map_option fst (run_parallel 4 False 3 3 2) = Some 1
   \<and> map_option (cout \<circ> snd) (run_parallel 4 False 3 3 2) = Some []"
proof -
  have a: "run_serial False 3 3 2 = Some (0, run_state2 False 3 3 2)"
    using run_serial_closed[of 3 3 False 2] by simp
  have b: "run_optimized False 3 3 2 = Some (1, initial (init_val_optimized 3 3) 3 3)"
    using run_optimized_closed[of 3 3 False 2] by simp
  have c: "run_parallel 4 False 3 3 2 = Some (1, initial (init_val_parallel 3 3) 3 3)"
    using run_parallel_closed[of 3 3 4 False 2] by simp
  have d: "[0..(1::int)] = [0, 1]" by (simp add: upto_rec1)
  have e: "fout (run_state2 False 3 3 2) = []"
    by (simp add: run_state2_def fold_step2_fout initial2_def)
  show ?thesis
    using run_state2_cout[of False 3 3 2] by (simp add: a b c d e initial_def)
qed

text \<open>
  C10.  For every \<open>nx \<ge> 3\<close> and every row range passed to the stencil worker, empty and
  reversed ranges included, the worker completes without an access outside its arrays,
  and every cell it changes is a cell \<open>(i, j)\<close> with \<open>max 1 i_begin \<le> i < min (nx - 1) i_end\<close>
  and \<open>1 \<le> j \<le> ny - 2\<close>: never a cell of row \<open>0\<close> or row \<open>nx - 1\<close>, never an index outside
  \<open>0 ..< nx * ny\<close>.  On a reversed or empty range it changes nothing.
\<close>

theorem stencil_worker_in_bounds:
  assumes "3 \<le> nx" and "allocated (nx * ny) vi" and "allocated (nx * ny) vr"
  shows "\<exists>vr'. stencil_update_block vi vr nx ny i_begin i_end = Some vr'
           \<and> allocated (nx * ny) vr'
           \<and> (\<forall>k. vr' k \<noteq> vr k \<longrightarrow>
                 (\<exists>i j. k = i * ny + j \<and> max 1 i_begin \<le> i \<and> i < min (nx - 1) i_end
                    \<and> 1 \<le> j \<and> j \<le> ny - 2 \<and> i \<noteq> 0 \<and> i \<noteq> nx - 1 \<and> 0 \<le> k \<and> k < nx * ny))
           \<and> (i_end \<le> i_begin \<longrightarrow> vr' = vr)"
proof -
  let ?S = "\<Union>i\<in>{max 1 i_begin..<min (nx - 1) i_end}. \<Union>j\<in>{1..<ny - 1}. {i * ny + j}"
  let ?v = "\<lambda>a. if a \<in> ?S then Some (stencil_val vi ny a) else vr a"
  have c: "stencil_update_block vi vr nx ny i_begin i_end = Some ?v"
    by (rule stencil_block_closed[OF assms(2,3)])
  have S: "\<exists>i j. k = i * ny + j \<and> max 1 i_begin \<le> i \<and> i < min (nx - 1) i_end
                    \<and> 1 \<le> j \<and> j \<le> ny - 2 \<and> i \<noteq> 0 \<and> i \<noteq> nx - 1 \<and> 0 \<le> k \<and> k < nx * ny"
    if "k \<in> ?S" for k
  proof -
    from that obtain i j where ij: "max 1 i_begin \<le> i" "i < min (nx - 1) i_end"
      "1 \<le> j" "j < ny - 1" "k = i * ny + j" by auto
    then have "0 \<le> k \<and> k < nx * ny" using idx_range[of i nx j ny] by simp
    then show ?thesis using ij by (intro exI[of _ i] exI[of _ j]) simp
  qed
  have "allocated (nx * ny) ?v"
  proof -
    have "k \<in> dom vr" if "k \<in> ?S" for k
      using S[OF that] assms(3) by (auto simp: allocated_def)
    then have "dom ?v = dom vr" by (auto simp: dom_def split: if_splits)
    then show ?thesis using assms(3) by (simp add: allocated_def)
  qed
  moreover have "\<forall>k. ?v k \<noteq> vr k \<longrightarrow>
                 (\<exists>i j. k = i * ny + j \<and> max 1 i_begin \<le> i \<and> i < min (nx - 1) i_end
                    \<and> 1 \<le> j \<and> j \<le> ny - 2 \<and> i \<noteq> 0 \<and> i \<noteq> nx - 1 \<and> 0 \<le> k \<and> k < nx * ny)"
    using S by (auto split: if_splits)
  moreover have "i_end \<le> i_begin \<longrightarrow> ?v = vr" by (auto simp: fun_eq_iff)
  ultimately show ?thesis using c by blast
qed

theorem stencil_worker_in_bounds_witness:
  "(3::int) \<le> 3 \<and> allocated (3 * 3) (ramp 9) \<and> allocated (3 * 3) (zeros 9)
   \<and> stencil_update_block (ramp 9) (zeros 9) 3 3 4 2 = Some (zeros 9)"
proof -
  have a: "(3::int) \<le> 3" "allocated (3 * 3) (ramp 9)" "allocated (3 * 3) (zeros 9)"
    using allocated_ramp[of 9] allocated_zeros[of 9] by simp_all
  from stencil_worker_in_bounds[OF a, of 4 2]
  have "stencil_update_block (ramp 9) (zeros 9) 3 3 4 2 = Some (zeros 9)" by auto
  then show ?thesis using a by simp
qed

end
